theory Spec2Isabelle
  imports Main "HOL-Library.Sublist" "HOL-Library.Char_ord" "HOL-Library.Multiset"
begin

section \<open>Characters and character classes of the \<^verbatim>\<open>re\<close> module\<close>

text \<open>
  A Python \<^verbatim>\<open>str\<close> is modelled as a \<^typ>\<open>string\<close>, one \<^typ>\<open>char\<close> per character, read as
  the code points U+0000 .. U+00FF, in the order of their codes. On these code points the classes below are the ones
  of Python 3's \<^verbatim>\<open>re\<close> for \<^verbatim>\<open>str\<close> patterns: \<^verbatim>\<open>\d\<close> is 0-9, \<^verbatim>\<open>\s\<close> is
  \<^verbatim>\<open>str.isspace\<close>, and \<^verbatim>\<open>\w\<close> is \<^verbatim>\<open>str.isalnum\<close> or the underscore.
\<close>

definition is_digit :: "char \<Rightarrow> bool" where
  "is_digit c = (CHR ''0'' \<le> c \<and> c \<le> CHR ''9'')"

definition is_space :: "char \<Rightarrow> bool" where
  "is_space c =
     ((CHR 0x09 \<le> c \<and> c \<le> CHR 0x0D) \<or> (CHR 0x1C \<le> c \<and> c \<le> CHR 0x20)
      \<or> c = CHR 0x85 \<or> c = CHR 0xA0)"

definition is_upper :: "char \<Rightarrow> bool" where
  "is_upper c = (CHR ''A'' \<le> c \<and> c \<le> CHR ''Z'')"

definition is_lower :: "char \<Rightarrow> bool" where
  "is_lower c = (CHR ''a'' \<le> c \<and> c \<le> CHR ''z'')"

definition is_word :: "char \<Rightarrow> bool" where
  "is_word c =
     (is_digit c \<or> is_upper c \<or> is_lower c \<or> c = CHR ''_''
      \<or> c = CHR 0xAA \<or> c = CHR 0xB2 \<or> c = CHR 0xB3 \<or> c = CHR 0xB5
      \<or> c = CHR 0xB9 \<or> c = CHR 0xBA \<or> (CHR 0xBC \<le> c \<and> c \<le> CHR 0xBE)
      \<or> (CHR 0xC0 \<le> c \<and> c \<le> CHR 0xD6) \<or> (CHR 0xD8 \<le> c \<and> c \<le> CHR 0xF6)
      \<or> CHR 0xF8 \<le> c)"

text \<open>
  Case folding as \<^verbatim>\<open>re.IGNORECASE\<close> needs it for the patterns of this program, whose
  literals and ranges are all ASCII: only the ASCII letters have a case variant that can
  fall into such a class.
\<close>

fun set_bit5 :: "bool \<Rightarrow> char \<Rightarrow> char" where
  "set_bit5 b (Char b0 b1 b2 b3 b4 b5 b6 b7) = Char b0 b1 b2 b3 b4 b b6 b7"

definition to_lower :: "char \<Rightarrow> char" where  \<comment> \<open>code + 32 for A-Z\<close>
  "to_lower c = (if is_upper c then set_bit5 True c else c)"

definition to_upper :: "char \<Rightarrow> char" where  \<comment> \<open>code - 32 for a-z\<close>
  "to_upper c = (if is_lower c then set_bit5 False c else c)"

datatype citem =
    Ch char           \<comment> \<open>a literal character\<close>
  | Rng char char     \<comment> \<open>a range \<^verbatim>\<open>a-z\<close>\<close>
  | Digit             \<comment> \<open>\<^verbatim>\<open>\d\<close>\<close>
  | NonDigit          \<comment> \<open>\<^verbatim>\<open>\D\<close>\<close>
  | Space             \<comment> \<open>\<^verbatim>\<open>\s\<close>\<close>

fun item_has :: "citem \<Rightarrow> char \<Rightarrow> bool" where
  "item_has (Ch a) c = (c = a)"
| "item_has (Rng a b) c = (a \<le> c \<and> c \<le> b)"
| "item_has Digit c = is_digit c"
| "item_has NonDigit c = (\<not> is_digit c)"
| "item_has Space c = is_space c"

definition items_have :: "citem list \<Rightarrow> char \<Rightarrow> bool" where
  "items_have cs c = list_ex (\<lambda>i. item_has i c) cs"

text \<open>
  Membership in a class; under IGNORECASE (\<open>ic\<close>) the engine tests the lower-cased
  character and its upper-cased form.
\<close>

definition in_class :: "bool \<Rightarrow> citem list \<Rightarrow> char \<Rightarrow> bool" where
  "in_class ic cs c =
     (if ic then items_have cs (to_lower c) \<or> items_have cs (to_upper (to_lower c))
      else items_have cs c)"

section \<open>A backtracking matcher for the regular expressions of the program\<close>

text \<open>
  The regular expressions of \<^verbatim>\<open>process_chatlog_py38.py\<close> use literals, classes, greedy
  counted repetition of a class, greedy optional groups, concatenation, ordered
  alternation and \<^verbatim>\<open>\b\<close>. Capturing groups do not change what is matched and are
  not represented.
\<close>

datatype rx =
    Eps
  | Lit char                          \<comment> \<open>a literal character\<close>
  | Cls "citem list"                  \<comment> \<open>\<^verbatim>\<open>[...]\<close>, \<^verbatim>\<open>\d\<close>, \<^verbatim>\<open>\s\<close>\<close>
  | Many "citem list" nat "nat option" \<comment> \<open>a class repeated \<^verbatim>\<open>{m,n}\<close>; \<open>None\<close> is no upper bound\<close>
  | Opt rx                            \<comment> \<open>\<^verbatim>\<open>(...)?\<close>\<close>
  | Seq rx rx
  | Alt rx rx                         \<comment> \<open>\<^verbatim>\<open>a|b\<close>, the left branch first\<close>
  | WordB                             \<comment> \<open>\<^verbatim>\<open>\b\<close>\<close>

text \<open>
  A position in the subject, while one match is tried: the number of characters the match
  has consumed so far, the character before the position (\<open>None\<close> at the start of the
  text) and the text that remains.
\<close>

type_synonym mstate = "nat \<times> char option \<times> string"

fun prev_is_word :: "char option \<Rightarrow> bool" where
  "prev_is_word None = False"
| "prev_is_word (Some c) = is_word c"

fun next_is_word :: "string \<Rightarrow> bool" where
  "next_is_word [] = False"
| "next_is_word (c # cs) = is_word c"

text \<open>
  Greedy repetition of a class between \<open>lo\<close> and \<open>hi\<close> times: all the positions where it
  can stop, the longest first, as the engine tries them when it backtracks.
\<close>

fun many :: "bool \<Rightarrow> citem list \<Rightarrow> nat \<Rightarrow> nat option \<Rightarrow> mstate \<Rightarrow> mstate list" where
  "many ic cs lo hi (n, p, []) = (if lo = 0 then [(n, p, [])] else [])"
| "many ic cs lo hi (n, p, x # xs) =
     (if hi \<noteq> Some 0 \<and> in_class ic cs x
      then many ic cs (lo - 1) (map_option (\<lambda>h. h - 1) hi) (Suc n, Some x, xs) else [])
     @ (if lo = 0 then [(n, p, x # xs)] else [])"

text \<open>
  All the ways a regular expression matches at a position, as the positions after the
  match, in the order in which the backtracking engine finds them. The engine's match is
  the first one.
\<close>

fun rx_match :: "bool \<Rightarrow> rx \<Rightarrow> mstate \<Rightarrow> mstate list" where
  "rx_match ic Eps st = [st]"
| "rx_match ic (Lit a) (n, p, s) =
     (case s of
        [] \<Rightarrow> []
      | x # xs \<Rightarrow> if in_class ic [Ch a] x then [(Suc n, Some x, xs)] else [])"
| "rx_match ic (Cls cs) (n, p, s) =
     (case s of
        [] \<Rightarrow> []
      | x # xs \<Rightarrow> if in_class ic cs x then [(Suc n, Some x, xs)] else [])"
| "rx_match ic (Many cs lo hi) st = many ic cs lo hi st"
| "rx_match ic (Opt r) st = rx_match ic r st @ [st]"
| "rx_match ic (Seq r1 r2) st = concat (map (rx_match ic r2) (rx_match ic r1 st))"
| "rx_match ic (Alt r1 r2) st = rx_match ic r1 st @ rx_match ic r2 st"
| "rx_match ic WordB (n, p, s) =
     (if prev_is_word p \<noteq> next_is_word s then [(n, p, s)] else [])"

text \<open>
  The match at one position: the first way to match. After an empty match
  (\<open>must_advance\<close>) an empty match at the same position is refused and the engine
  backtracks into the next way.
\<close>

fun first_match :: "bool \<Rightarrow> mstate list \<Rightarrow> mstate option" where
  "first_match must_advance [] = None"
| "first_match must_advance ((n, p, s) # sts) =
     (if must_advance \<and> n = 0 then first_match must_advance sts else Some (n, p, s))"

definition match_here :: "bool \<Rightarrow> rx \<Rightarrow> bool \<Rightarrow> char option \<Rightarrow> string \<Rightarrow> mstate option" where
  "match_here ic r must_advance p s = first_match must_advance (rx_match ic r (0, p, s))"

text \<open>
  The search of \<^verbatim>\<open>re\<close>: the leftmost position at or after the current one where the
  pattern matches. The result is the text skipped, the text matched, the last character
  before the end of the match and the text after the match.
\<close>

fun re_search ::
  "bool \<Rightarrow> rx \<Rightarrow> bool \<Rightarrow> char option \<Rightarrow> string
    \<Rightarrow> (string \<times> string \<times> char option \<times> string) option" where
  "re_search ic r must_advance p [] =
     (case match_here ic r must_advance p [] of
        None \<Rightarrow> None
      | Some (n, p', s') \<Rightarrow> Some ([], [], p', s'))"
| "re_search ic r must_advance p (c # cs) =
     (case match_here ic r must_advance p (c # cs) of
        Some (n, p', s') \<Rightarrow> Some ([], take n (c # cs), p', s')
      | None \<Rightarrow>
          (case re_search ic r False (Some c) cs of
             None \<Rightarrow> None
           | Some (gap, m, p', s') \<Rightarrow> Some (c # gap, m, p', s')))"

text \<open>
  The members of all the classes and the literals of a regular expression: a match
  consumes a prefix of the text, counts its characters, and every character of it is in
  one of these.
\<close>

fun rx_items :: "rx \<Rightarrow> citem list" where
  "rx_items Eps = []"
| "rx_items (Lit a) = [Ch a]"
| "rx_items (Cls cs) = cs"
| "rx_items (Many cs lo hi) = cs"
| "rx_items (Opt r) = rx_items r"
| "rx_items (Seq r1 r2) = rx_items r1 @ rx_items r2"
| "rx_items (Alt r1 r2) = rx_items r1 @ rx_items r2"
| "rx_items WordB = []"

lemma in_class_append:
  "in_class ic (as @ bs) c = (in_class ic as c \<or> in_class ic bs c)"
  by (auto simp: in_class_def items_have_def)

lemma many_chars:
  "(n', p', s') \<in> set (many ic cs lo hi (n, p, s))
    \<Longrightarrow> \<exists>m. s = m @ s' \<and> n' = n + length m \<and> (\<forall>c \<in> set m. in_class ic cs c)"
proof (induction s arbitrary: lo hi n p)
  case Nil
  then show ?case by (auto split: if_splits)
next
  case (Cons x xs)
  from Cons.prems consider
      (step) "in_class ic cs x"
        "(n', p', s') \<in> set (many ic cs (lo - 1) (map_option (\<lambda>h. h - 1) hi) (Suc n, Some x, xs))"
    | (stop) "n' = n" "s' = x # xs"
    by (auto split: if_splits)
  then show ?case
  proof cases
    case step
    from Cons.IH[OF step(2)] obtain m where
      "xs = m @ s'" "n' = Suc n + length m" "\<forall>c \<in> set m. in_class ic cs c" by blast
    with step(1) have "x # xs = (x # m) @ s' \<and> n' = n + length (x # m)
        \<and> (\<forall>c \<in> set (x # m). in_class ic cs c)" by simp
    then show ?thesis by blast
  next
    case stop
    then show ?thesis by simp
  qed
qed

lemma rx_match_chars:
  "(n', p', s') \<in> set (rx_match ic r (n, p, s))
    \<Longrightarrow> \<exists>m. s = m @ s' \<and> n' = n + length m \<and> (\<forall>c \<in> set m. in_class ic (rx_items r) c)"
proof (induction r arbitrary: n p s n' p' s')
  case (Lit a)
  then show ?case by (cases s) (auto split: if_splits)
next
  case (Cls cs)
  then show ?case by (cases s) (auto split: if_splits)
next
  case (Many cs lo hi)
  then show ?case by (auto dest: many_chars)
next
  case (Opt r)
  then show ?case by auto
next
  case (Seq r1 r2)
  from Seq.prems obtain n1 p1 s1 where
    one: "(n1, p1, s1) \<in> set (rx_match ic r1 (n, p, s))" and
    two: "(n', p', s') \<in> set (rx_match ic r2 (n1, p1, s1))"
    by auto
  from Seq.IH(1)[OF one] obtain m1 where m1: "s = m1 @ s1" "n1 = n + length m1"
    "\<forall>c \<in> set m1. in_class ic (rx_items r1) c" by blast
  from Seq.IH(2)[OF two] obtain m2 where m2: "s1 = m2 @ s'" "n' = n1 + length m2"
    "\<forall>c \<in> set m2. in_class ic (rx_items r2) c" by blast
  from m1 m2 have "s = (m1 @ m2) @ s' \<and> n' = n + length (m1 @ m2)
      \<and> (\<forall>c \<in> set (m1 @ m2). in_class ic (rx_items (Seq r1 r2)) c)"
    by (auto simp: in_class_append)
  then show ?case by blast
next
  case (Alt r1 r2)
  from Alt.prems consider "(n', p', s') \<in> set (rx_match ic r1 (n, p, s))"
    | "(n', p', s') \<in> set (rx_match ic r2 (n, p, s))" by auto
  then show ?case
  proof cases
    case 1
    from Alt.IH(1)[OF 1] show ?thesis by (auto simp: in_class_append)
  next
    case 2
    from Alt.IH(2)[OF 2] show ?thesis by (auto simp: in_class_append)
  qed
next
  case WordB
  then show ?case by (auto split: if_splits)
qed auto

lemma first_match_mem:
  "first_match ma sts = Some st \<Longrightarrow> st \<in> set sts \<and> (ma \<longrightarrow> fst st \<noteq> 0)"
  by (induction ma sts rule: first_match.induct) (auto split: if_splits)

lemma match_here_consumes:
  assumes "match_here ic r ma p s = Some (n', p', s')"
  shows "s = take n' s @ s'" and "n' \<le> length s" and "ma \<Longrightarrow> n' \<noteq> 0"
proof -
  from assms first_match_mem[of ma "rx_match ic r (0, p, s)" "(n', p', s')"]
  have mem: "(n', p', s') \<in> set (rx_match ic r (0, p, s))" and adv: "ma \<longrightarrow> n' \<noteq> 0"
    by (auto simp: match_here_def)
  from rx_match_chars[OF mem] obtain m where m: "s = m @ s'" "n' = length m" by auto
  then show "s = take n' s @ s'" by simp
  from m show "n' \<le> length s" by simp
  from adv show "ma \<Longrightarrow> n' \<noteq> 0" by simp
qed

lemma match_here_chars:
  assumes "match_here ic r ma p s = Some (n', p', s')"
  shows "\<forall>c \<in> set (take n' s). in_class ic (rx_items r) c"
proof -
  from assms first_match_mem[of ma "rx_match ic r (0, p, s)" "(n', p', s')"]
  have "(n', p', s') \<in> set (rx_match ic r (0, p, s))" by (auto simp: match_here_def)
  from rx_match_chars[OF this] show ?thesis by auto
qed

lemma re_search_split:
  "re_search ic r ma p s = Some (gap, m, p', s') \<Longrightarrow> s = gap @ m @ s'"
proof (induction s arbitrary: ma p gap)
  case Nil
  then obtain n where "match_here ic r ma p [] = Some (n, p', s')" "gap = []" "m = []"
    by (auto split: option.splits)
  with match_here_consumes(1)[of ic r ma p "[]" n p' s'] show ?case by simp
next
  case (Cons c cs)
  show ?case
  proof (cases "match_here ic r ma p (c # cs)")
    case (Some st1)
    then obtain n where st1: "match_here ic r ma p (c # cs) = Some (n, p', s')"
      and "gap = []" "m = take n (c # cs)"
      using Cons.prems by (cases st1) auto
    with match_here_consumes(1)[OF st1] show ?thesis by simp
  next
    case None
    with Cons.prems obtain g where "re_search ic r False (Some c) cs = Some (g, m, p', s')"
      and "gap = c # g" by (auto split: option.splits)
    with Cons.IH show ?thesis by auto
  qed
qed

lemma re_search_advance:
  assumes "re_search ic r True p s = Some ([], m, p', s')"
  shows "m \<noteq> []"
proof (cases s)
  case Nil
  with assms obtain n where "match_here ic r True p [] = Some (n, p', s')"
    by (auto split: option.splits)
  from match_here_consumes(2,3)[OF this] show ?thesis by simp
next
  case (Cons c cs)
  with assms obtain n where h: "match_here ic r True p (c # cs) = Some (n, p', s')"
    and m: "m = take n (c # cs)"
    by (auto split: option.splits)
  from match_here_consumes(3)[OF h] m show ?thesis by (cases n) auto
qed

lemma re_search_chars:
  "re_search ic r ma p s = Some (gap, m, p', s') \<Longrightarrow> \<forall>c \<in> set m. in_class ic (rx_items r) c"
proof (induction s arbitrary: ma p gap)
  case Nil
  then show ?case by (auto split: option.splits)
next
  case (Cons c cs)
  show ?case
  proof (cases "match_here ic r ma p (c # cs)")
    case (Some st1)
    then obtain n where "match_here ic r ma p (c # cs) = Some (n, p', s')" "m = take n (c # cs)"
      using Cons.prems by (cases st1) auto
    with match_here_chars show ?thesis by blast
  next
    case None
    with Cons.prems obtain g where "re_search ic r False (Some c) cs = Some (g, m, p', s')"
      by (auto split: option.splits)
    with Cons.IH show ?thesis by blast
  qed
qed

text \<open>
  The loop of \<^verbatim>\<open>re.sub\<close>: search from the end of the last match, until the search
  fails. The result is the text cut into the pairs (text skipped before a match, the
  match) and the text after the last match.
\<close>

function re_segments ::
  "bool \<Rightarrow> rx \<Rightarrow> bool \<Rightarrow> char option \<Rightarrow> string \<Rightarrow> (string \<times> string) list \<times> string" where
  "re_segments ic r must_advance p s =
     (case re_search ic r must_advance p s of
        None \<Rightarrow> ([], s)
      | Some (gap, m, p', s') \<Rightarrow>
          (case re_segments ic r (m = []) p' s' of
             (segs, rest) \<Rightarrow> ((gap, m) # segs, rest)))"
  by pat_completeness auto
termination
proof (relation "measure (\<lambda>(ic, r, ma, p, s). 2 * length s + (if ma then 0 else 1))")
  show "wf (measure (\<lambda>(ic, r, ma, p, s). 2 * length s + (if ma then 0 else 1)))"
    by simp
next
  fix ic r must_advance p s x2 gap y m z p' s'
  assume "re_search ic r must_advance p s = Some x2" "(gap, y) = x2" "(m, z) = y"
    "(p', s') = z"
  then have eq: "re_search ic r must_advance p s = Some (gap, m, p', s')" by simp
  from re_search_split[OF eq] have len: "length s = length gap + length m + length s'"
    by simp
  have adv: "\<not> must_advance" if "m = []" "gap = []"
  proof
    assume must_advance
    with eq that have "re_search ic r True p s = Some ([], [], p', s')" by simp
    from re_search_advance[OF this] show False by simp
  qed
  show "((ic, r, m = [], p', s'), ic, r, must_advance, p, s)
      \<in> measure (\<lambda>(ic, r, ma, p, s). 2 * length s + (if ma then 0 else 1))"
    using len adv by (cases m; cases gap; cases must_advance) auto
qed

declare re_segments.simps [simp del]

text \<open>
  \<^verbatim>\<open>re.sub(pattern, repl, text, flags=re.IGNORECASE)\<close> with a string \<open>repl\<close> that has no
  backslash: every match is replaced by \<open>repl\<close>.
\<close>

definition re_sub :: "rx \<Rightarrow> string \<Rightarrow> string \<Rightarrow> string" where
  "re_sub r repl text =
     (case re_segments True r False None text of
        (segs, rest) \<Rightarrow> concat (map (\<lambda>(gap, m). gap @ repl) segs) @ rest)"

text \<open>
  \<^verbatim>\<open>re.sub\<close> with a function \<open>repl\<close>: the function is called on each match in turn, from
  left to right. It may change state of its own (here: \<^verbatim>\<open>cc_matches\<close>), which is threaded
  through the calls.
\<close>

fun sub_calls :: "(string \<Rightarrow> 'st \<Rightarrow> string \<times> 'st) \<Rightarrow> (string \<times> string) list \<Rightarrow> 'st \<Rightarrow> string \<times> 'st" where
  "sub_calls f [] st = ([], st)"
| "sub_calls f ((gap, m) # segs) st =
     (case f m st of
        (repl, st1) \<Rightarrow>
          (case sub_calls f segs st1 of (out, st2) \<Rightarrow> (gap @ repl @ out, st2)))"

definition re_sub_fn :: "rx \<Rightarrow> (string \<Rightarrow> 'st \<Rightarrow> string \<times> 'st) \<Rightarrow> string \<Rightarrow> 'st \<Rightarrow> string \<times> 'st" where
  "re_sub_fn r f text st =
     (case re_segments True r False None text of
        (segs, rest) \<Rightarrow> (case sub_calls f segs st of (out, st') \<Rightarrow> (out @ rest, st')))"

section \<open>The patterns of \<^verbatim>\<open>process_chatlog_py38.py\<close>\<close>

fun seq :: "rx list \<Rightarrow> rx" where
  "seq [] = Eps"
| "seq [r] = r"
| "seq (r # rs) = Seq r (seq rs)"

fun alts :: "rx list \<Rightarrow> rx" where
  "alts [] = Cls []"
| "alts [r] = r"
| "alts (r # rs) = Alt r (alts rs)"

definition lits :: "string \<Rightarrow> rx" where
  "lits s = seq (map Lit s)"

definition upper_lower :: "citem list" where  \<comment> \<open>\<^verbatim>\<open>A-Za-z\<close>\<close>
  "upper_lower = [Rng CHR ''A'' CHR ''Z'', Rng CHR ''a'' CHR ''z'']"

definition lower_upper :: "citem list" where  \<comment> \<open>\<^verbatim>\<open>a-zA-Z\<close>\<close>
  "lower_upper = [Rng CHR ''a'' CHR ''z'', Rng CHR ''A'' CHR ''Z'']"

definition digits :: "nat \<Rightarrow> nat \<Rightarrow> rx" where  \<comment> \<open>\<^verbatim>\<open>\d{m,n}\<close>\<close>
  "digits lo hi = Many [Digit] lo (Some hi)"

definition spaces :: rx where  \<comment> \<open>\<^verbatim>\<open>\s*\<close>\<close>
  "spaces = Many [Space] 0 None"

definition spaces1 :: rx where  \<comment> \<open>\<^verbatim>\<open>\s+\<close>\<close>
  "spaces1 = Many [Space] 1 None"

text \<open>\<^verbatim>\<open>[A-Za-z]\s*\d\s*[A-Za-z]\s*[ -]?\s*\d\s*[A-Za-z]\s*\d\<close>\<close>

definition POSTAL_CODE_PATTERN :: rx where
  "POSTAL_CODE_PATTERN =
     seq [Cls upper_lower, spaces, Cls [Digit], spaces, Cls upper_lower, spaces,
          Many [Ch CHR '' '', Ch CHR ''-''] 0 (Some 1), spaces,
          Cls [Digit], spaces, Cls upper_lower, spaces, Cls [Digit]]"

text \<open>\<^verbatim>\<open>\b([A-Za-z]{2}\s*\d{6})\b\<close>\<close>

definition PASSPORT_PATTERN :: rx where
  "PASSPORT_PATTERN = seq [WordB, Many upper_lower 2 (Some 2), spaces, digits 6 6, WordB]"

text \<open>\<^verbatim>\<open>(\d{3}\s*\d{3}\s*\d{3}|\d{3}\D*\d{3}\D*\d{3})\<close>\<close>

definition SIN_PATTERN :: rx where
  "SIN_PATTERN =
     Alt (seq [digits 3 3, spaces, digits 3 3, spaces, digits 3 3])
         (seq [digits 3 3, Many [NonDigit] 0 None, digits 3 3, Many [NonDigit] 0 None,
               digits 3 3])"

text \<open>\<^verbatim>\<open>(\+\d{1,2}\s?)?1?\-?\.\s?\(?\d{3}\)?[\s.-]?\d{3}[\s.-]?\d{4}\<close>\<close>

definition PHONE_PATTERN_1 :: rx where
  "PHONE_PATTERN_1 =
     seq [Opt (seq [Lit CHR ''+'', digits 1 2, Many [Space] 0 (Some 1)]),
          Opt (Lit CHR ''1''), Opt (Lit CHR ''-''), Lit CHR ''.'', Many [Space] 0 (Some 1),
          Opt (Lit CHR ''(''), digits 3 3, Opt (Lit CHR '')''),
          Many [Space, Ch CHR ''.'', Ch CHR ''-''] 0 (Some 1), digits 3 3,
          Many [Space, Ch CHR ''.'', Ch CHR ''-''] 0 (Some 1), digits 4 4]"

text \<open>
  \<^verbatim>\<open>[2-9]1[02-9]|[2-9][02-8]1|[2-9][02-8][02-9]\<close>, the area code of the second phone
  pattern, and \<^verbatim>\<open>[2-9]1[02-9]|[2-9][02-9]1|[2-9][02-9]{2}\<close>, its exchange code.
\<close>

definition r29 :: "citem list" where
  "r29 = [Rng CHR ''2'' CHR ''9'']"

definition r0_29 :: "citem list" where
  "r0_29 = [Ch CHR ''0'', Rng CHR ''2'' CHR ''9'']"

definition r0_28 :: "citem list" where
  "r0_28 = [Ch CHR ''0'', Rng CHR ''2'' CHR ''8'']"

definition area_code :: rx where
  "area_code =
     alts [seq [Cls r29, Lit CHR ''1'', Cls r0_29],
           seq [Cls r29, Cls r0_28, Lit CHR ''1''],
           seq [Cls r29, Cls r0_28, Cls r0_29]]"

definition exchange_code :: rx where
  "exchange_code =
     alts [seq [Cls r29, Lit CHR ''1'', Cls r0_29],
           seq [Cls r29, Cls r0_29, Lit CHR ''1''],
           seq [Cls r29, Many r0_29 2 (Some 2)]]"

definition dot_dash_spaces :: rx where  \<comment> \<open>\<^verbatim>\<open>(?:[.-]\s*)?\<close>\<close>
  "dot_dash_spaces = Opt (seq [Cls [Ch CHR ''.'', Ch CHR ''-''], spaces])"

text \<open>
  \<^verbatim>\<open>(?:(?:\+?1\s*(?:[.-]\s*)?)?(?:\(\s*(AREA)\s*\)|(AREA))\s*(?:[.-]\s*)?)?(EXCHANGE)\s*(?:[.-]\s*)?([0-9]{4})(?:\s*(?:#|x\.?|ext\.?|extension)\s*(\d+))?\<close>
\<close>

definition PHONE_PATTERN_2 :: rx where
  "PHONE_PATTERN_2 =
     seq [Opt (seq [Opt (seq [Opt (Lit CHR ''+''), Lit CHR ''1'', spaces, dot_dash_spaces]),
                    Alt (seq [Lit CHR ''('', spaces, area_code, spaces, Lit CHR '')''])
                        area_code,
                    spaces, dot_dash_spaces]),
          exchange_code, spaces, dot_dash_spaces,
          Many [Rng CHR ''0'' CHR ''9''] 4 (Some 4),
          Opt (seq [spaces,
                    alts [Lit CHR ''#'',
                          seq [Lit CHR ''x'', Opt (Lit CHR ''.'')],
                          seq [lits ''ext'', Opt (Lit CHR ''.'')],
                          lits ''extension''],
                    spaces, Many [Digit] 1 None])]"

text \<open>\<^verbatim>\<open>([a-zA-Z0-9_\-\.]+)\s*@([\sa-zA-Z0-9_\-\.]+)[\.\,]([a-zA-Z]{1,5})\<close>\<close>

definition email_chars :: "citem list" where  \<comment> \<open>\<^verbatim>\<open>a-zA-Z0-9_\-\.\<close>\<close>
  "email_chars =
     lower_upper @ [Rng CHR ''0'' CHR ''9'', Ch CHR ''_'', Ch CHR ''-'', Ch CHR ''.'']"

definition EMAIL_PATTERN :: rx where
  "EMAIL_PATTERN =
     seq [Many email_chars 1 None, spaces, Lit CHR ''@'', Many (Space # email_chars) 1 None,
          Cls [Ch CHR ''.'', Ch CHR '',''], Many lower_upper 1 (Some 5)]"

text \<open>\<^verbatim>\<open>\b(\d{1,2}[-/.]\d{1,2}[-/.]\d{2,4}|\d{4}[-/.]\d{1,2}[-/.]\d{1,2})\b\<close>\<close>

definition date_sep :: rx where  \<comment> \<open>\<^verbatim>\<open>[-/.]\<close>\<close>
  "date_sep = Cls [Ch CHR ''-'', Ch CHR ''/'', Ch CHR ''.'']"

definition DOB_PATTERN :: rx where
  "DOB_PATTERN =
     seq [WordB,
          Alt (seq [digits 1 2, date_sep, digits 1 2, date_sep, digits 2 4])
              (seq [digits 4 4, date_sep, digits 1 2, date_sep, digits 1 2]),
          WordB]"

text \<open>\<^verbatim>\<open>\b(?:P(?:ost(?:al)?)?\.?\s*O(?:ffice)?\.?\s*Box|General Delivery)\s+\d+\b\<close>\<close>

definition PO_BOX_PATTERN :: rx where
  "PO_BOX_PATTERN =
     seq [WordB,
          Alt (seq [Lit CHR ''P'', Opt (seq [lits ''ost'', Opt (lits ''al'')]),
                    Opt (Lit CHR ''.''), spaces,
                    Lit CHR ''O'', Opt (lits ''ffice''), Opt (Lit CHR ''.''), spaces,
                    lits ''Box''])
              (lits ''General Delivery''),
          spaces1, Many [Digit] 1 None, WordB]"

text \<open>
  \<^verbatim>\<open>\b[A-Za-z0-9]+\s+[A-Za-z0-9\s.-]+\s+(?:Street|St|Avenue|Ave|Road|Rd|Lane|Ln|Drive|Dr|Boulevard|Blvd|Crescent|Cres|Court|Ct)\b\<close>
\<close>

definition alnum :: "citem list" where  \<comment> \<open>\<^verbatim>\<open>A-Za-z0-9\<close>\<close>
  "alnum = upper_lower @ [Rng CHR ''0'' CHR ''9'']"

definition ADDRESS_PATTERN :: rx where
  "ADDRESS_PATTERN =
     seq [WordB, Many alnum 1 None, spaces1,
          Many (alnum @ [Space, Ch CHR ''.'', Ch CHR ''-'']) 1 None, spaces1,
          alts [lits ''Street'', lits ''St'', lits ''Avenue'', lits ''Ave'', lits ''Road'',
                lits ''Rd'', lits ''Lane'', lits ''Ln'', lits ''Drive'', lits ''Dr'',
                lits ''Boulevard'', lits ''Blvd'', lits ''Crescent'', lits ''Cres'',
                lits ''Court'', lits ''Ct''],
          WordB]"

text \<open>\<^verbatim>\<open>\b(?:\d{4}[ -]?\d{4}[ -]?\d{4}[ -]?\d{1,4}|\d{13,16})\b\<close>\<close>

definition space_dash :: rx where  \<comment> \<open>\<^verbatim>\<open>[ -]?\<close>\<close>
  "space_dash = Many [Ch CHR '' '', Ch CHR ''-''] 0 (Some 1)"

definition TEMP_CREDIT_CARD_IGNORE_PATTERN :: rx where
  "TEMP_CREDIT_CARD_IGNORE_PATTERN =
     seq [WordB,
          Alt (seq [digits 4 4, space_dash, digits 4 4, space_dash, digits 4 4, space_dash,
                    digits 1 4])
              (digits 13 16),
          WordB]"

section \<open>Python strings\<close>

text \<open>\<^verbatim>\<open>"{}".format(idx)\<close> for a non-negative integer: its decimal digits.\<close>

definition digit_char :: "nat \<Rightarrow> char" where
  "digit_char d = ''0123456789'' ! d"

fun str_of_nat :: "nat \<Rightarrow> string" where
  "str_of_nat n =
     (if n < 10 then [digit_char n] else str_of_nat (n div 10) @ [digit_char (n mod 10)])"

declare str_of_nat.simps [simp del]

text \<open>
  \<^verbatim>\<open>old in s\<close> is \<^term>\<open>sublist old s\<close> and \<^verbatim>\<open>s.startswith(old)\<close> is
  \<^term>\<open>prefix old s\<close>. \<^verbatim>\<open>s.replace(old, new, 1)\<close> replaces the first occurrence of
  \<open>old\<close>, if there is one.
\<close>

fun replace_one :: "string \<Rightarrow> string \<Rightarrow> string \<Rightarrow> string" where
  "replace_one old new [] = (if old = [] then new else [])"
| "replace_one old new (c # s) =
     (if prefix old (c # s) then new @ drop (length old) (c # s)
      else c # replace_one old new s)"

section \<open>\<^verbatim>\<open>scrub_pii\<close>\<close>

text \<open>
  The values \<^verbatim>\<open>scrub_pii\<close> receives from a column of the data frame: a string, or one of
  the missing values \<^verbatim>\<open>None\<close> and \<^verbatim>\<open>float('nan')\<close>, for which \<^verbatim>\<open>pd.isna\<close> is true.
\<close>

datatype pyval = PyNone | PyNaN | PyStr string

fun pd_isna :: "pyval \<Rightarrow> bool" where
  "pd_isna PyNone = True"
| "pd_isna PyNaN = True"
| "pd_isna (PyStr s) = False"

fun py_str :: "pyval \<Rightarrow> string" where
  "py_str PyNone = ''None''"
| "py_str PyNaN = ''nan''"
| "py_str (PyStr s) = s"

subsection \<open>Shielding the credit card numbers\<close>

definition stem :: string where
  "stem = ''@@TEMP_CC_PLACEHOLDER_''"

definition placeholder :: "nat \<Rightarrow> string" where  \<comment> \<open>\<^verbatim>\<open>"@@TEMP_CC_PLACEHOLDER_{}@@".format(idx)\<close>\<close>
  "placeholder idx = stem @ str_of_nat idx @ ''@@''"

text \<open>
  \<^verbatim>\<open>cc_match_replacer\<close> appends the match to \<^verbatim>\<open>cc_matches\<close> and returns the placeholder
  of its index.
\<close>

definition cc_match_replacer :: "string \<Rightarrow> string list \<Rightarrow> string \<times> string list" where
  "cc_match_replacer m cc_matches =
     (placeholder (length (cc_matches @ [m]) - 1), cc_matches @ [m])"

definition shield :: "string \<Rightarrow> string \<times> string list" where
  "shield text = re_sub_fn TEMP_CREDIT_CARD_IGNORE_PATTERN cc_match_replacer text []"

subsection \<open>The rules\<close>

definition apply_rules :: "string \<Rightarrow> string" where
  "apply_rules text0 =
     (let text1 = re_sub POSTAL_CODE_PATTERN ''***'' text0;
          text2 = re_sub PASSPORT_PATTERN ''***'' text1;
          text3 = re_sub SIN_PATTERN ''***'' text2;
          text4 = re_sub PHONE_PATTERN_1 ''***'' text3;
          text5 = re_sub PHONE_PATTERN_2 ''***'' text4;
          text6 = re_sub EMAIL_PATTERN ''***'' text5;
          text7 = re_sub DOB_PATTERN ''***'' text6;
          text8 = re_sub PO_BOX_PATTERN ''***'' text7
      in re_sub ADDRESS_PATTERN ''***'' text8)"

subsection \<open>The entities of the recognizer\<close>

text \<open>
  What the program reads of an entity of spaCy: \<^verbatim>\<open>ent.text\<close>, \<^verbatim>\<open>ent.label_\<close>,
  \<^verbatim>\<open>ent.start_char\<close> and \<^verbatim>\<open>ent.end_char\<close> (character offsets, never negative).
  The recognizer \<^verbatim>\<open>nlp\<close> is a parameter: called on the text it returns the entities
  \<^verbatim>\<open>doc.ents\<close> or raises an exception. \<^verbatim>\<open>nlp = None\<close> is the model that failed to load.
\<close>

record entity =
  ent_text :: string
  label :: string
  start_char :: nat
  end_char :: nat

datatype py_exception = PyException string

type_synonym recognizer = "string \<Rightarrow> py_exception + entity list"

text \<open>
  \<^verbatim>\<open>ent.text.upper()\<close>: for the test against \<^verbatim>\<open>"PII"\<close> and \<^verbatim>\<open>"DOB"\<close> only the ASCII
  letters matter.
\<close>

definition py_upper :: "string \<Rightarrow> string" where
  "py_upper s = map to_upper s"

definition skipped_acronym :: "entity \<Rightarrow> bool" where
  "skipped_acronym ent =
     (py_upper (ent_text ent) \<in> set [''PII'', ''DOB'']
      \<and> label ent \<in> set [''ORG'', ''PERSON'', ''PRODUCT'', ''WORK_OF_ART'', ''LAW'', ''EVENT''])"

definition scrubbed_label :: "entity \<Rightarrow> bool" where
  "scrubbed_label ent = (label ent \<in> set [''PERSON'', ''ORG'', ''GPE'', ''LOC''])"

fun entities_to_scrub_tuples :: "entity list \<Rightarrow> (nat \<times> nat \<times> string) list" where
  "entities_to_scrub_tuples [] = []"
| "entities_to_scrub_tuples (ent # ents) =
     (if skipped_acronym ent then entities_to_scrub_tuples ents
      else if scrubbed_label ent
        then (start_char ent, end_char ent, label ent) # entities_to_scrub_tuples ents
      else entities_to_scrub_tuples ents)"

text \<open>
  \<^verbatim>\<open>list.sort(reverse=True, key=lambda x: x[0])\<close>: descending in the key; the sort is
  stable, and with \<^verbatim>\<open>reverse=True\<close> elements of equal key keep their order.
\<close>

definition sort_reverse :: "(nat \<times> nat \<times> string) list \<Rightarrow> (nat \<times> nat \<times> string) list" where
  "sort_reverse xs = rev (sort_key fst (rev xs))"

text \<open>\<^verbatim>\<open>text = text[:start] + "***" + text[end:]\<close>, for each tuple in turn.\<close>

fun replace_spans :: "string \<Rightarrow> (nat \<times> nat \<times> string) list \<Rightarrow> string" where
  "replace_spans text [] = text"
| "replace_spans text ((start, end, lab) # spans) =
     replace_spans (take start text @ ''***'' @ drop end text) spans"

text \<open>
  The \<^verbatim>\<open>try\<close> block: an exception of the recognizer leaves the text as the rules left
  it.
\<close>

definition apply_entities :: "recognizer option \<Rightarrow> string \<Rightarrow> string" where
  "apply_entities nlp text =
     (case nlp of
        None \<Rightarrow> text
      | Some recognize \<Rightarrow>
          (case recognize text of
             Inl e \<Rightarrow> text
           | Inr ents \<Rightarrow> replace_spans text (sort_reverse (entities_to_scrub_tuples ents))))"

subsection \<open>Restoring the credit card numbers\<close>

definition sentinel :: string where
  "sentinel = ''[UNEXPECTED_CC_PLACEHOLDER]''"

text \<open>
  The \<^verbatim>\<open>while True\<close> loop. Whether it ends is not visible from its text, so it is a
  partial function: \<open>None\<close> is the loop that runs forever.
\<close>

partial_function (option) restore_loop :: "string \<Rightarrow> string list \<Rightarrow> nat \<Rightarrow> string option" where
  "restore_loop text cc_matches idx =
     (if sublist (placeholder idx) text
      then restore_loop
             (replace_one (placeholder idx)
                (if idx < length cc_matches then cc_matches ! idx else sentinel) text)
             cc_matches (idx + 1)
      else Some text)"

declare restore_loop.simps [code]

definition restore :: "string \<Rightarrow> string list \<Rightarrow> string option" where
  "restore text cc_matches = restore_loop text cc_matches 0"

subsection \<open>The whole function\<close>

definition scrub_pii :: "recognizer option \<Rightarrow> pyval \<Rightarrow> pyval option" where
  "scrub_pii nlp v =
     (if pd_isna v then Some v
      else
        (case shield (py_str v) of
           (shielded, cc_matches) \<Rightarrow>
             map_option PyStr
               (restore (apply_entities nlp (apply_rules shielded)) cc_matches)))"

section \<open>Notions of the claims\<close>

subsection \<open>Entity spans and the reference splice\<close>

type_synonym span = "nat \<times> nat \<times> string"

fun disjoint_spans :: "span \<Rightarrow> span \<Rightarrow> bool" where
  "disjoint_spans (s1, e1, l1) (s2, e2, l2) = (e1 \<le> s2 \<or> e2 \<le> s1)"

definition non_overlapping :: "span list \<Rightarrow> bool" where
  "non_overlapping spans =
     (distinct spans \<and> (\<forall>x \<in> set spans. \<forall>y \<in> set spans. x \<noteq> y \<longrightarrow> disjoint_spans x y))"

text \<open>
  Spans computed against a buffer: each covers at least one character of the buffer, and
  no two overlap.
\<close>

definition spans_of_buffer :: "string \<Rightarrow> span list \<Rightarrow> bool" where
  "spans_of_buffer buf spans =
     ((\<forall>(s, e, l) \<in> set spans. s < e \<and> e \<le> length buf) \<and> non_overlapping spans)"

text \<open>
  The reference construction of the specification: the output is built by copying the
  untouched segments between the cut points, sorted by their start, with the marker in
  place of each span.
\<close>

fun splice_from :: "nat \<Rightarrow> string \<Rightarrow> span list \<Rightarrow> string" where
  "splice_from pos buf [] = drop pos buf"
| "splice_from pos buf ((start, end, lab) # spans) =
     take (start - pos) (drop pos buf) @ ''***'' @ splice_from end buf spans"

definition splice_reference :: "string \<Rightarrow> span list \<Rightarrow> string" where
  "splice_reference buf spans = splice_from 0 buf (sort_key fst spans)"

text \<open>Spans in ascending order, each starting where the one before has ended, or later.\<close>

fun chain :: "nat \<Rightarrow> span list \<Rightarrow> bool" where
  "chain pos [] = True"
| "chain pos ((s, e, l) # spans) = (pos \<le> s \<and> s \<le> e \<and> chain e spans)"

text \<open>
  What a recognizer may return without harm to the characters \<open>lo\<close> to \<open>hi\<close> of the text it
  is given: nothing (it is absent, or it raises), or entities whose spans to scrub are
  spans of the text, do not overlap each other and lie outside \<open>lo\<close> to \<open>hi\<close>.
\<close>

definition spares :: "recognizer option \<Rightarrow> string \<Rightarrow> nat \<Rightarrow> nat \<Rightarrow> bool" where
  "spares nlp t lo hi =
     (case nlp of
        None \<Rightarrow> True
      | Some recognize \<Rightarrow>
          (case recognize t of
             Inl e \<Rightarrow> True
           | Inr ents \<Rightarrow>
               spans_of_buffer t (entities_to_scrub_tuples ents)
               \<and> (\<forall>(s, e, l) \<in> set (entities_to_scrub_tuples ents). e \<le> lo \<or> hi \<le> s)))"

subsection \<open>The text cut at the matches\<close>

text \<open>
  The pairs (gap, match) of \<^const>\<open>re_segments\<close> put together again: as they were, with
  the marker for each match, and with the placeholders from index \<open>k\<close> on.
\<close>

fun flat :: "(string \<times> string) list \<Rightarrow> string" where
  "flat [] = []"
| "flat ((gap, m) # segs) = gap @ m @ flat segs"

fun marked :: "string \<Rightarrow> (string \<times> string) list \<Rightarrow> string" where
  "marked repl [] = []"
| "marked repl ((gap, m) # segs) = gap @ repl @ marked repl segs"

fun numbered :: "nat \<Rightarrow> (string \<times> string) list \<Rightarrow> string" where
  "numbered k [] = []"
| "numbered k ((gap, m) # segs) = gap @ placeholder k @ numbered (Suc k) segs"

text \<open>
  The character before a position: the last character of the text \<open>s\<close> that lies before it,
  or \<open>p\<close>, what stood before \<open>s\<close>, when \<open>s\<close> is empty.
\<close>

definition last_char :: "char option \<Rightarrow> string \<Rightarrow> char option" where
  "last_char p s = (if s = [] then p else Some (last s))"

text \<open>
  No match of the pattern starts at a character of \<open>gap\<close>, where \<open>after\<close> is the text that
  follows \<open>gap\<close>. Only at the first position, and only after an empty match there
  (\<open>must_advance\<close>), is an empty match not counted.
\<close>

fun unmatched :: "bool \<Rightarrow> rx \<Rightarrow> bool \<Rightarrow> char option \<Rightarrow> string \<Rightarrow> string \<Rightarrow> bool" where
  "unmatched ic r must_advance p [] after = True"
| "unmatched ic r must_advance p (c # cs) after =
     (match_here ic r must_advance p (c # cs @ after) = None
      \<and> unmatched ic r False (Some c) cs after)"

text \<open>
  A global substitution, in the words of the specification: the text is cut, from left to
  right, into pairs of a gap and a match and a rest, such that no match starts in a gap,
  each match is the match of the pattern at the position where its gap ends, the next
  gap starts where the match has ended (the matches do not overlap), and no match starts
  in the rest or at the end of the text. So every match that a search from left to right
  meets is one of the pairs.
\<close>

fun leftmost_cut ::
  "bool \<Rightarrow> rx \<Rightarrow> bool \<Rightarrow> char option \<Rightarrow> (string \<times> string) list \<Rightarrow> string \<Rightarrow> bool" where
  "leftmost_cut ic r must_advance p [] rest =
     (unmatched ic r must_advance p rest []
      \<and> match_here ic r (must_advance \<and> rest = []) (last_char p rest) [] = None)"
| "leftmost_cut ic r must_advance p ((gap, m) # segs) rest =
     (unmatched ic r must_advance p gap (m @ flat segs @ rest)
      \<and> map_option (\<lambda>(n, p', s'). (n, s'))
            (match_here ic r (must_advance \<and> gap = []) (last_char p gap) (m @ flat segs @ rest))
          = Some (length m, flat segs @ rest)
      \<and> leftmost_cut ic r (m = []) (last_char (last_char p gap) m) segs rest)"

subsection \<open>Upper case\<close>

fun upper_state :: "mstate \<Rightarrow> mstate" where
  "upper_state (n, p, s) = (n, map_option to_upper p, map to_upper s)"

fun upper_found ::
  "string \<times> string \<times> char option \<times> string \<Rightarrow> string \<times> string \<times> char option \<times> string" where
  "upper_found (gap, m, p, s) =
     (map to_upper gap, map to_upper m, map_option to_upper p, map to_upper s)"

fun upper_segments :: "(string \<times> string) list \<times> string \<Rightarrow> (string \<times> string) list \<times> string" where
  "upper_segments (segs, rest) =
     (map (\<lambda>(gap, m). (map to_upper gap, map to_upper m)) segs, map to_upper rest)"

subsection \<open>The measure of the restore loop\<close>

text \<open>
  The loop ends: every round that finds its placeholder removes it, and what it puts in
  is either one of the finitely many recorded matches or the sentinel, which is shorter
  than the placeholder from index 1000 on.
\<close>

definition loop_measure :: "string \<Rightarrow> string list \<Rightarrow> nat \<Rightarrow> nat" where
  "loop_measure text cc idx =
     length text + sum_list (map (\<lambda>m. Suc (length m)) (drop idx cc)) + 3 * (1000 - idx)"

subsection \<open>Inputs of the examples\<close>

definition shielded_card :: string where
  "shielded_card = ''My Card is @@TEMP_CC_PLACEHOLDER_0@@, thanks.''"

text \<open>A recognizer that takes the placeholder for an organisation.\<close>

definition placeholder_recognizer :: recognizer where
  "placeholder_recognizer t =
     Inr [\<lparr>ent_text = ''@@TEMP_CC_PLACEHOLDER_0@@'', label = ''ORG'', start_char = 11,
           end_char = 36\<rparr>]"

text \<open>A recognizer that finds a person at the characters 38 to 44.\<close>

definition thanks_recognizer :: recognizer where
  "thanks_recognizer t =
     Inr [\<lparr>ent_text = ''thanks'', label = ''PERSON'', start_char = 38, end_char = 44\<rparr>]"

text \<open>A recognizer that raises.\<close>

definition failing_recognizer :: recognizer where
  "failing_recognizer t = Inl (PyException ''model failure'')"

section \<open>The restore loop\<close>

text \<open>
  \<^verbatim>\<open>replace(old, new, 1)\<close> cuts the text at the first occurrence of \<open>old\<close>.
\<close>

lemma replace_one_first:
  assumes "sublist old t"
  shows "\<exists>a b. t = a @ old @ b \<and> replace_one old new t = a @ new @ b
           \<and> (\<forall>a' b'. t = a' @ old @ b' \<longrightarrow> length a \<le> length a')"
  using assms
proof (induction t)
  case Nil
  then show ?case by simp
next
  case (Cons c s)
  show ?case
  proof (cases "prefix old (c # s)")
    case True
    then obtain b where b: "c # s = old @ b" by (auto simp: prefix_def)
    have "replace_one old new (c # s) = new @ drop (length old) (c # s)"
      using True by simp
    with b have "c # s = [] @ old @ b \<and> replace_one old new (c # s) = [] @ new @ b"
      by simp
    then show ?thesis by (metis le0 list.size(3))
  next
    case False
    with Cons.prems have "sublist old s" by (simp add: sublist_Cons_right)
    from Cons.IH[OF this] obtain a b where ab: "s = a @ old @ b"
      "replace_one old new s = a @ new @ b"
      "\<forall>a' b'. s = a' @ old @ b' \<longrightarrow> length a \<le> length a'" by blast
    have "length (c # a) \<le> length a'" if "c # s = a' @ old @ b'" for a' b'
    proof (cases a')
      case Nil
      with that have "prefix old (c # s)" by (simp add: prefix_def)
      with False show ?thesis by simp
    next
      case (Cons x a'')
      with that have "s = a'' @ old @ b'" by simp
      with ab(3) Cons show ?thesis by simp
    qed
    moreover have "c # s = (c # a) @ old @ b" using ab(1) by simp
    moreover have "replace_one old new (c # s) = (c # a) @ new @ b"
      using False ab(2) by simp
    ultimately show ?thesis by blast
  qed
qed

lemma length_replace_one:
  assumes "sublist old t"
  shows "length (replace_one old new t) + length old = length t + length new"
proof -
  from replace_one_first[OF assms, of new] obtain a b where
    "t = a @ old @ b" "replace_one old new t = a @ new @ b" by blast
  then show ?thesis by simp
qed

lemma length_str_of_nat: "1 \<le> length (str_of_nat n)"
  by (subst str_of_nat.simps) simp

lemma length_str_of_nat_1000: "1000 \<le> n \<Longrightarrow> 4 \<le> length (str_of_nat n)"
proof -
  assume n: "1000 \<le> n"
  have "str_of_nat n = str_of_nat (n div 10 div 10 div 10) @ [digit_char (n div 10 div 10 mod 10),
      digit_char (n div 10 mod 10), digit_char (n mod 10)]"
  proof -
    from n have "100 \<le> n div 10" by (simp add: less_eq_div_iff_mult_less_eq)
    then have "10 \<le> n div 10 div 10" by (simp add: less_eq_div_iff_mult_less_eq)
    with n \<open>100 \<le> n div 10\<close>
    have a: "\<not> n < 10" "\<not> n div 10 < 10" "\<not> n div 10 div 10 < 10" by simp_all
    have "str_of_nat n = str_of_nat (n div 10) @ [digit_char (n mod 10)]"
      using a(1) by (subst str_of_nat.simps) simp
    also have "str_of_nat (n div 10) = str_of_nat (n div 10 div 10) @ [digit_char (n div 10 mod 10)]"
      using a(2) by (subst str_of_nat.simps) simp
    also have "str_of_nat (n div 10 div 10) =
        str_of_nat (n div 10 div 10 div 10) @ [digit_char (n div 10 div 10 mod 10)]"
      using a(3) by (subst str_of_nat.simps) simp
    finally show ?thesis by simp
  qed
  then show ?thesis using length_str_of_nat[of "n div 10 div 10 div 10"] by simp
qed

lemma length_placeholder: "length (placeholder k) = 24 + length (str_of_nat k)"
  by (simp add: placeholder_def stem_def)

lemma length_sentinel: "length sentinel = 27"
  by (simp add: sentinel_def)

lemma restore_loop_terminates: "\<exists>out. restore_loop t cc idx = Some out"
proof (induction "loop_measure t cc idx" arbitrary: t idx rule: less_induct)
  case less
  show ?case
  proof (cases "sublist (placeholder idx) t")
    case False
    then show ?thesis by (subst restore_loop.simps) simp
  next
    case True
    let ?r = "if idx < length cc then cc ! idx else sentinel"
    let ?u = "replace_one (placeholder idx) ?r t"
    have len: "length ?u + length (placeholder idx) = length t + length ?r"
      using length_replace_one[OF True] by simp
    have "loop_measure ?u cc (idx + 1) < loop_measure t cc idx"
    proof (cases "idx < length cc")
      case True
      then have "drop idx cc = cc ! idx # drop (Suc idx) cc"
        by (simp add: Cons_nth_drop_Suc)
      with True len length_placeholder[of idx] show ?thesis
        by (simp add: loop_measure_def)
    next
      case False
      show ?thesis
      proof (cases "idx < 1000")
        case True
        with False len length_placeholder[of idx] length_str_of_nat[of idx] length_sentinel
        show ?thesis by (simp add: loop_measure_def)
      next
        case big: False
        then have "4 \<le> length (str_of_nat idx)" by (intro length_str_of_nat_1000) simp
        with False big len length_placeholder[of idx] length_sentinel
        show ?thesis by (simp add: loop_measure_def)
      qed
    qed
    from less[OF this] obtain out where "restore_loop ?u cc (idx + 1) = Some out" by blast
    with True show ?thesis by (subst restore_loop.simps) simp
  qed
qed

lemma restore_loop_stop: "\<not> sublist (placeholder k) t \<Longrightarrow> restore_loop t cc k = Some t"
  by (subst restore_loop.simps) simp

lemma restore_loop_step:
  assumes "sublist (placeholder k) t"
  shows "\<exists>a b. t = a @ placeholder k @ b
           \<and> (\<forall>a' b'. t = a' @ placeholder k @ b' \<longrightarrow> length a \<le> length a')
           \<and> restore_loop t cc k =
               restore_loop (a @ (if k < length cc then cc ! k else sentinel) @ b) cc (Suc k)"
proof -
  let ?r = "if k < length cc then cc ! k else sentinel"
  from replace_one_first[OF assms, of ?r] obtain a b where ab: "t = a @ placeholder k @ b"
    "replace_one (placeholder k) ?r t = a @ ?r @ b"
    "\<forall>a' b'. t = a' @ placeholder k @ b' \<longrightarrow> length a \<le> length a'" by blast
  have "restore_loop t cc k = restore_loop (replace_one (placeholder k) ?r t) cc (Suc k)"
    using assms by (subst restore_loop.simps) simp
  with ab show ?thesis by metis
qed

lemma sublist_outside:
  assumes "sublist w (a @ p @ b)" "hd p \<notin> set w" "last p \<notin> set w" "p \<noteq> []" "\<not> sublist w p"
  shows "sublist w a \<or> sublist w b"
proof -
  have inner: "sublist w b" if "sublist w (p @ b)"
  proof -
    from that assms(5) consider "sublist w b"
      | w1 w2 where "w = w1 @ w2" "suffix w1 p" "prefix w2 b"
      by (auto simp: sublist_append)
    then show ?thesis
    proof cases
      case 2
      have "w1 = []"
      proof (rule ccontr)
        assume "w1 \<noteq> []"
        with 2(2) have "last w1 = last p" by (auto simp: suffix_def)
        with \<open>w1 \<noteq> []\<close> 2(1) assms(3) show False by (metis last_in_set Un_iff set_append)
      qed
      with 2 show ?thesis by auto
    qed
  qed
  from assms(1) consider "sublist w a" | "sublist w (p @ b)"
    | w1 w2 where "w = w1 @ w2" "suffix w1 a" "prefix w2 (p @ b)"
    by (auto simp: sublist_append)
  then show ?thesis
  proof cases
    case 1
    then show ?thesis by simp
  next
    case 2
    with inner show ?thesis by simp
  next
    case 3
    have "w2 = []"
    proof (rule ccontr)
      assume "w2 \<noteq> []"
      with 3(3) assms(4) have "hd w2 = hd p" by (cases w2; cases p) auto
      with \<open>w2 \<noteq> []\<close> 3(1) assms(2) show False by (metis hd_in_set Un_iff set_append)
    qed
    with 3 show ?thesis by auto
  qed
qed

lemma digit_char_digit: "d < 10 \<Longrightarrow> digit_char d \<in> set ''0123456789''"
  unfolding digit_char_def by (rule nth_mem) simp

lemma set_str_of_nat: "set (str_of_nat n) \<subseteq> set ''0123456789''"
proof (induction n rule: str_of_nat.induct)
  case (1 n)
  show ?case
  proof (cases "n < 10")
    case True
    with digit_char_digit[of n] show ?thesis by (subst str_of_nat.simps) simp
  next
    case False
    have "n mod 10 < 10" by simp
    from digit_char_digit[OF this] 1[OF False] False show ?thesis
      by (subst str_of_nat.simps) simp
  qed
qed

lemma placeholder_ends: "placeholder k \<noteq> []" "hd (placeholder k) = CHR ''@''"
  "last (placeholder k) = CHR ''@''"
  by (simp_all add: placeholder_def stem_def)

lemma dash_not_in_placeholder: "CHR ''-'' \<notin> set (placeholder k)"
  using set_str_of_nat[of k] by (auto simp: placeholder_def stem_def)

text \<open>
  A text without \<^verbatim>\<open>@\<close> and with a dash, once in the text, stays there through the rounds
  of the loop that put in the sentinel.
\<close>

lemma restore_loop_keeps:
  assumes "restore_loop t cc k = Some out"
  shows "sublist w t \<Longrightarrow> length cc \<le> k \<Longrightarrow> CHR ''@'' \<notin> set w \<Longrightarrow> CHR ''-'' \<in> set w
    \<Longrightarrow> sublist w out"
  using assms
proof (induction "loop_measure t cc k" arbitrary: t k rule: less_induct)
  case less
  show ?case
  proof (cases "sublist (placeholder k) t")
    case False
    with less.prems(5) have "out = t" by (simp add: restore_loop_stop)
    with less.prems(1) show ?thesis by simp
  next
    case True
    from restore_loop_step[OF True, of cc] less.prems(2) obtain a b where
      ab: "t = a @ placeholder k @ b"
      "restore_loop t cc k = restore_loop (a @ sentinel @ b) cc (Suc k)" by auto
    have "\<not> sublist w (placeholder k)"
      using less.prems(4) dash_not_in_placeholder set_mono_sublist by blast
    with sublist_outside[of w a "placeholder k" b] less.prems(1,3) ab(1) placeholder_ends
    have "sublist w a \<or> sublist w b" by simp
    then have keep: "sublist w (a @ sentinel @ b)"
      by (metis sublist_append)
    have "loop_measure (a @ sentinel @ b) cc (Suc k) < loop_measure t cc k"
      using less.prems(2) ab(1) length_placeholder[of k] length_str_of_nat[of k]
        length_str_of_nat_1000[of k] length_sentinel
      by (cases "k < 1000") (auto simp: loop_measure_def)
    from less.hyps[OF this keep] less.prems ab(2) show ?thesis by simp
  qed
qed

lemma restore_single:
  assumes "sublist (placeholder 0) t" "CHR ''@'' \<notin> set w" "CHR ''-'' \<in> set w"
  shows "\<exists>out. restore t [w] = Some out \<and> sublist w out"
proof -
  from restore_loop_step[OF assms(1), of "[w]"] obtain a b where
    step: "restore_loop t [w] 0 = restore_loop (a @ w @ b) [w] (Suc 0)" by auto
  from restore_loop_terminates obtain out where
    out: "restore_loop (a @ w @ b) [w] (Suc 0) = Some out" by blast
  have "sublist w (a @ w @ b)" by (rule sublist_appendI)
  from restore_loop_keeps[OF out this _ assms(2,3)] have "sublist w out" by simp
  with step out show ?thesis by (simp add: restore_def)
qed

section \<open>Shielding and restoring\<close>

lemma re_segments_flat:
  "re_segments ic r ma p s = (segs, rest) \<Longrightarrow> s = flat segs @ rest"
proof (induction ic r ma p s arbitrary: segs rest rule: re_segments.induct)
  case (1 ic r must_advance p s)
  show ?case
  proof (cases "re_search ic r must_advance p s")
    case None
    with "1.prems" show ?thesis by (simp add: re_segments.simps)
  next
    case (Some found)
    obtain gap m p' s' where found: "found = (gap, m, p', s')" by (cases found) auto
    obtain segs' rest' where rec: "re_segments ic r (m = []) p' s' = (segs', rest')"
      by (cases "re_segments ic r (m = []) p' s'")
    from "1.prems" Some found rec have "segs = (gap, m) # segs'" "rest = rest'"
      by (simp_all add: re_segments.simps)
    moreover from "1.IH"[OF Some found[symmetric] refl refl rec] have "s' = flat segs' @ rest'" .
    moreover from re_search_split Some found have "s = gap @ m @ s'" by blast
    ultimately show ?thesis by simp
  qed
qed

lemma sub_calls_cc:
  "sub_calls cc_match_replacer segs cc = (numbered (length cc) segs, cc @ map snd segs)"
  by (induction segs arbitrary: cc) (auto simp: cc_match_replacer_def)

lemma shield_segments:
  assumes "re_segments True TEMP_CREDIT_CARD_IGNORE_PATTERN False None x = (segs, rest)"
  shows "shield x = (numbered 0 segs @ rest, map snd segs)" and "x = flat segs @ rest"
  using assms re_segments_flat[OF assms] by (simp_all add: shield_def re_sub_fn_def sub_calls_cc)

text \<open>The stem of the placeholders overlaps itself only trivially.\<close>

lemma stem_unbordered:
  "us \<noteq> [] \<Longrightarrow> us \<noteq> stem \<Longrightarrow> suffix us stem \<Longrightarrow> \<not> prefix us stem"
proof -
  have "list_all (\<lambda>us. us = [] \<or> us = stem \<or> \<not> prefix us stem) (suffixes stem)"
    by code_simp
  then show "us \<noteq> [] \<Longrightarrow> us \<noteq> stem \<Longrightarrow> suffix us stem \<Longrightarrow> \<not> prefix us stem"
    by (auto simp: list_all_iff)
qed

lemma no_early_stem:
  assumes "\<not> sublist stem (c # u)"
  shows "\<not> prefix (stem @ w) (c # u @ stem @ w @ v)"
proof
  assume "prefix (stem @ w) (c # u @ stem @ w @ v)"
  then have "prefix stem ((c # u) @ stem @ w @ v)"
    by (metis append_Cons append_prefixD)
  then have "prefix stem (c # u) \<or> (\<exists>us. stem = (c # u) @ us \<and> prefix us (stem @ w @ v))"
    by (simp only: prefix_append)
  then consider "prefix stem (c # u)"
    | us where "stem = (c # u) @ us" "prefix us (stem @ w @ v)"
    by blast
  then show False
  proof cases
    case 1
    with assms show False by auto
  next
    case 2
    have "suffix us stem" using 2(1) by (metis suffixI)
    moreover have "us \<noteq> stem" using 2(1) by (metis append_self_conv2 list.distinct(1))
    moreover have "prefix us stem"
    proof -
      have "length us \<le> length stem" using 2(1) by (metis length_append le_add2)
      with 2(2) show ?thesis by (metis prefix_length_prefix prefixI)
    qed
    ultimately have "us = []" using stem_unbordered by blast
    with 2(1) have "prefix stem (c # u)" by simp
    with assms show False by auto
  qed
qed

lemma replace_first_stem:
  assumes "\<not> sublist stem u"
  shows "replace_one (stem @ w) new (u @ stem @ w @ v) = u @ new @ v"
  using assms
proof (induction u)
  case Nil
  have "stem @ w @ v = hd stem # tl stem @ w @ v" by (simp add: stem_def)
  moreover have "prefix (stem @ w) (stem @ w @ v)" by (metis append.assoc prefixI)
  ultimately show ?case by (simp add: stem_def)
next
  case (Cons c u)
  then have "\<not> sublist stem u" by (metis sublist_Cons_right)
  with Cons.IH have "replace_one (stem @ w) new (u @ stem @ w @ v) = u @ new @ v" .
  moreover from no_early_stem[OF Cons.prems]
  have "\<not> prefix (stem @ w) (c # u @ stem @ w @ v)" .
  ultimately show ?case by simp
qed

lemma sublist_stem_placeholder: "sublist (placeholder k) t \<Longrightarrow> sublist stem t"
  unfolding placeholder_def by (metis sublist_order.order.trans prefix_imp_sublist prefixI)

lemma restore_numbered:
  assumes "\<not> sublist stem (pre @ flat segs @ rest)" "length cc0 = k"
  shows "restore_loop (pre @ numbered k segs @ rest) (cc0 @ map snd segs) k
           = Some (pre @ flat segs @ rest)"
  using assms
proof (induction segs arbitrary: pre cc0 k)
  case Nil
  then have "\<not> sublist (placeholder k) (pre @ rest)"
    using sublist_stem_placeholder by auto
  then show ?case by (simp add: restore_loop_stop)
next
  case (Cons seg segs)
  obtain gap m where seg: "seg = (gap, m)" by (cases seg)
  let ?t = "(pre @ gap) @ placeholder k @ numbered (Suc k) segs @ rest"
  have clean: "\<not> sublist stem (pre @ gap)"
    using Cons.prems(1) seg by (metis append.assoc flat.simps(2) sublist_append_rightI sublist_order.order.trans)
  have here: "sublist (placeholder k) ?t" by (metis sublist_appendI)
  have "replace_one (placeholder k) m ?t = (pre @ gap) @ m @ numbered (Suc k) segs @ rest"
    using replace_first_stem[OF clean, of "str_of_nat k @ ''@@''" m "numbered (Suc k) segs @ rest"]
    by (simp add: placeholder_def)
  moreover have "(cc0 @ map snd (seg # segs)) ! k = m" "k < length (cc0 @ map snd (seg # segs))"
    using Cons.prems(2) seg by (simp_all add: nth_append)
  ultimately have "restore_loop ?t (cc0 @ map snd (seg # segs)) k =
      restore_loop ((pre @ gap @ m) @ numbered (Suc k) segs @ rest)
        ((cc0 @ [m]) @ map snd segs) (Suc k)"
    using here seg by (subst restore_loop.simps) simp
  also have "\<dots> = Some ((pre @ gap @ m) @ flat segs @ rest)"
    using Cons.prems seg by (intro Cons.IH) simp_all
  finally show ?case using seg by simp
qed

lemma re_segments_chars:
  "re_segments ic r ma p s = (segs, rest)
    \<Longrightarrow> \<forall>m \<in> set (map snd segs). \<forall>c \<in> set m. in_class ic (rx_items r) c"
proof (induction ic r ma p s arbitrary: segs rest rule: re_segments.induct)
  case (1 ic r must_advance p s)
  show ?case
  proof (cases "re_search ic r must_advance p s")
    case None
    with "1.prems" show ?thesis by (simp add: re_segments.simps)
  next
    case (Some found)
    obtain gap m p' s' where found: "found = (gap, m, p', s')" by (cases found) auto
    obtain segs' rest' where rec: "re_segments ic r (m = []) p' s' = (segs', rest')"
      by (cases "re_segments ic r (m = []) p' s'")
    from "1.prems" Some found rec have "segs = (gap, m) # segs'"
      by (simp add: re_segments.simps)
    moreover from "1.IH"[OF Some found[symmetric] refl refl rec]
    have "\<forall>m \<in> set (map snd segs'). \<forall>c \<in> set m. in_class ic (rx_items r) c" .
    moreover from re_search_chars Some found
    have "\<forall>c \<in> set m. in_class ic (rx_items r) c" by blast
    ultimately show ?thesis by simp
  qed
qed

lemma recorded_match_chars:
  assumes "m \<in> set (snd (shield x))" "c \<in> set m"
  shows "in_class True (rx_items TEMP_CREDIT_CARD_IGNORE_PATTERN) c"
proof -
  obtain segs rest where
    seg: "re_segments True TEMP_CREDIT_CARD_IGNORE_PATTERN False None x = (segs, rest)"
    by (cases "re_segments True TEMP_CREDIT_CARD_IGNORE_PATTERN False None x")
  from shield_segments(1)[OF seg] assms(1) have "m \<in> set (map snd segs)" by simp
  with re_segments_chars[OF seg] assms(2) show ?thesis by blast
qed

lemma sentinel_not_recorded: "sentinel \<notin> set (snd (shield x))"
proof
  assume "sentinel \<in> set (snd (shield x))"
  moreover have "CHR ''['' \<in> set sentinel" by (simp add: sentinel_def)
  ultimately have "in_class True (rx_items TEMP_CREDIT_CARD_IGNORE_PATTERN) CHR ''[''"
    by (rule recorded_match_chars)
  moreover have "\<not> in_class True (rx_items TEMP_CREDIT_CARD_IGNORE_PATTERN) CHR ''[''"
    by code_simp
  ultimately show False by simp
qed

section \<open>The cut of a substitution\<close>

text \<open>The character before the end of a match is the last one the match has consumed.\<close>

lemma last_char_append: "last_char p (a @ b) = last_char (last_char p a) b"
  by (simp add: last_char_def)

lemma last_char_Cons: "last_char p (c # s) = last_char (Some c) s"
  by (simp add: last_char_def)

lemma many_prev:
  "(n', p', s') \<in> set (many ic cs lo hi (n, p, s)) \<Longrightarrow> \<exists>m. s = m @ s' \<and> p' = last_char p m"
proof (induction s arbitrary: lo hi n p)
  case Nil
  then show ?case by (auto split: if_splits simp: last_char_def)
next
  case (Cons x xs)
  from Cons.prems consider
      (step) "(n', p', s') \<in> set (many ic cs (lo - 1) (map_option (\<lambda>h. h - 1) hi) (Suc n, Some x, xs))"
    | (stop) "p' = p" "s' = x # xs"
    by (auto split: if_splits)
  then show ?case
  proof cases
    case step
    from Cons.IH[OF step] obtain m where "xs = m @ s'" "p' = last_char (Some x) m" by blast
    then have "x # xs = (x # m) @ s' \<and> p' = last_char p (x # m)"
      by (simp add: last_char_Cons)
    then show ?thesis by blast
  next
    case stop
    then have "x # xs = [] @ s' \<and> p' = last_char p []" by (simp add: last_char_def)
    then show ?thesis by blast
  qed
qed

lemma rx_match_prev:
  "(n', p', s') \<in> set (rx_match ic r (n, p, s)) \<Longrightarrow> \<exists>m. s = m @ s' \<and> p' = last_char p m"
proof (induction r arbitrary: n p s n' p' s')
  case Eps
  then have "s = [] @ s' \<and> p' = last_char p []" by (simp add: last_char_def)
  then show ?case by blast
next
  case (Lit a)
  then obtain x where "s = [x] @ s'" "p' = last_char p [x]"
    by (cases s) (auto split: if_splits simp: last_char_def)
  then show ?case by blast
next
  case (Cls cs)
  then obtain x where "s = [x] @ s'" "p' = last_char p [x]"
    by (cases s) (auto split: if_splits simp: last_char_def)
  then show ?case by blast
next
  case (Many cs lo hi)
  then show ?case by (auto dest: many_prev)
next
  case (Opt r)
  from Opt.prems consider "(n', p', s') \<in> set (rx_match ic r (n, p, s))" | "p' = p" "s' = s"
    by auto
  then show ?case
  proof cases
    case 1
    from Opt.IH[OF 1] show ?thesis .
  next
    case 2
    then have "s = [] @ s' \<and> p' = last_char p []" by (simp add: last_char_def)
    then show ?thesis by blast
  qed
next
  case (Seq r1 r2)
  from Seq.prems obtain n1 p1 s1 where
    one: "(n1, p1, s1) \<in> set (rx_match ic r1 (n, p, s))" and
    two: "(n', p', s') \<in> set (rx_match ic r2 (n1, p1, s1))"
    by auto
  from Seq.IH(1)[OF one] obtain m1 where m1: "s = m1 @ s1" "p1 = last_char p m1" by blast
  from Seq.IH(2)[OF two] obtain m2 where m2: "s1 = m2 @ s'" "p' = last_char p1 m2" by blast
  from m1 m2 have "s = (m1 @ m2) @ s' \<and> p' = last_char p (m1 @ m2)"
    by (simp add: last_char_append)
  then show ?case by blast
next
  case (Alt r1 r2)
  from Alt.prems consider "(n', p', s') \<in> set (rx_match ic r1 (n, p, s))"
    | "(n', p', s') \<in> set (rx_match ic r2 (n, p, s))" by auto
  then show ?case
  proof cases
    case 1
    from Alt.IH(1)[OF 1] show ?thesis .
  next
    case 2
    from Alt.IH(2)[OF 2] show ?thesis .
  qed
next
  case WordB
  then have "s = [] @ s' \<and> p' = last_char p []" by (auto split: if_splits simp: last_char_def)
  then show ?case by blast
qed

lemma match_here_prev:
  assumes "match_here ic r ma p s = Some (n', p', s')"
  shows "p' = last_char p (take n' s)"
proof -
  from assms first_match_mem[of ma "rx_match ic r (0, p, s)" "(n', p', s')"]
  have mem: "(n', p', s') \<in> set (rx_match ic r (0, p, s))" by (auto simp: match_here_def)
  from rx_match_prev[OF mem] obtain m where m: "s = m @ s'" "p' = last_char p m" by blast
  from match_here_consumes(1)[OF assms] have "s = take n' s @ s'" .
  with m(1) have "m = take n' s" by (metis append_same_eq)
  with m(2) show ?thesis by simp
qed

text \<open>What a search finds, and what it has passed over.\<close>

lemma re_search_found:
  "re_search ic r ma p s = Some (gap, m, p', s')
    \<Longrightarrow> unmatched ic r ma p gap (m @ s')
      \<and> match_here ic r (ma \<and> gap = []) (last_char p gap) (m @ s') = Some (length m, p', s')
      \<and> p' = last_char (last_char p gap) m"
proof (induction s arbitrary: ma p gap)
  case Nil
  then obtain n where h: "match_here ic r ma p [] = Some (n, p', s')" "gap = []" "m = []"
    by (auto split: option.splits)
  from match_here_consumes(1,2)[OF h(1)] have "n = 0" "s' = []" by simp_all
  with h show ?case using match_here_prev[OF h(1)] by (simp add: last_char_def)
next
  case (Cons c cs)
  show ?case
  proof (cases "match_here ic r ma p (c # cs)")
    case (Some st1)
    then obtain n where st1: "match_here ic r ma p (c # cs) = Some (n, p', s')"
      and g: "gap = []" and m: "m = take n (c # cs)"
      using Cons.prems by (cases st1) auto
    from match_here_consumes(1,2)[OF st1] m have split: "c # cs = m @ s'" "length m = n"
      by simp_all
    from match_here_prev[OF st1] m have "p' = last_char p m" by simp
    with st1 g split show ?thesis by (simp add: last_char_def)
  next
    case None
    with Cons.prems obtain g where rec: "re_search ic r False (Some c) cs = Some (g, m, p', s')"
      and gap: "gap = c # g" by (auto split: option.splits)
    from re_search_split[OF rec] have cs: "cs = g @ m @ s'" .
    from Cons.IH[OF rec] have ih: "unmatched ic r False (Some c) g (m @ s')"
      "match_here ic r (False \<and> g = []) (last_char (Some c) g) (m @ s') = Some (length m, p', s')"
      "p' = last_char (last_char (Some c) g) m" by simp_all
    from None cs ih(1) have "unmatched ic r ma p (c # g) (m @ s')" by simp
    with ih(2,3) gap show ?thesis by (simp add: last_char_Cons)
  qed
qed

lemma re_search_none:
  "re_search ic r ma p s = None
    \<Longrightarrow> unmatched ic r ma p s [] \<and> match_here ic r (ma \<and> s = []) (last_char p s) [] = None"
proof (induction s arbitrary: ma p)
  case Nil
  then show ?case by (auto split: option.splits simp: last_char_def)
next
  case (Cons c cs)
  from Cons.prems have none: "match_here ic r ma p (c # cs) = None"
    and rec: "re_search ic r False (Some c) cs = None"
    by (auto split: option.splits)
  from Cons.IH[OF rec] none show ?case by (simp add: last_char_Cons)
qed

text \<open>A search passes over text without a match.\<close>

lemma re_search_unmatched:
  "unmatched ic r ma p (c # gap) after
    \<Longrightarrow> re_search ic r ma p (c # gap @ after)
        = map_option (\<lambda>(g, found). ((c # gap) @ g, found))
            (re_search ic r False (last_char p (c # gap)) after)"
proof (induction gap arbitrary: ma p c)
  case Nil
  then have "match_here ic r ma p (c # after) = None" by simp
  then show ?case
    by (cases "re_search ic r False (Some c) after") (auto simp: last_char_def)
next
  case (Cons d gap)
  from Cons.prems have none: "match_here ic r ma p (c # (d # gap) @ after) = None"
    and rest: "unmatched ic r False (Some c) (d # gap) after" by simp_all
  from Cons.IH[OF rest] have "re_search ic r False (Some c) (d # gap @ after)
      = map_option (\<lambda>(g, found). ((d # gap) @ g, found))
          (re_search ic r False (last_char (Some c) (d # gap)) after)" .
  with none show ?case
    by (cases "re_search ic r False (last_char (Some c) (d # gap)) after")
      (auto simp: last_char_def)
qed


lemma re_search_here:
  assumes "match_here ic r ma p s = Some (n, p', s')"
  shows "re_search ic r ma p s = Some ([], take n s, p', s')"
  using assms by (cases s) simp_all

lemma re_search_cut:
  assumes "unmatched ic r ma p gap (m @ s')"
    and "map_option (\<lambda>(n, p', s'). (n, s'))
           (match_here ic r (ma \<and> gap = []) (last_char p gap) (m @ s')) = Some (length m, s')"
  shows "re_search ic r ma p (gap @ m @ s')
           = Some (gap, m, last_char (last_char p gap) m, s')"
proof -
  from assms(2) obtain p' where
    h: "match_here ic r (ma \<and> gap = []) (last_char p gap) (m @ s') = Some (length m, p', s')"
    by auto
  from match_here_prev[OF h] have p': "p' = last_char (last_char p gap) m" by simp
  from re_search_here[OF h]
  have here: "re_search ic r (ma \<and> gap = []) (last_char p gap) (m @ s') = Some ([], m, p', s')"
    by simp
  show ?thesis
  proof (cases gap)
    case Nil
    with here p' show ?thesis by (simp add: last_char_def)
  next
    case (Cons c g)
    with assms(1) have "unmatched ic r ma p (c # g) (m @ s')" by simp
    from re_search_unmatched[OF this] here Cons p' show ?thesis by simp
  qed
qed

lemma re_search_no:
  assumes "unmatched ic r ma p s []"
    and "match_here ic r (ma \<and> s = []) (last_char p s) [] = None"
  shows "re_search ic r ma p s = None"
proof (cases s)
  case Nil
  with assms(2) show ?thesis by (simp add: last_char_def)
next
  case (Cons c cs)
  with assms(1) have "unmatched ic r ma p (c # cs) []" by simp
  from re_search_unmatched[OF this] assms(2) Cons show ?thesis by simp
qed

text \<open>The loop of \<^verbatim>\<open>re.sub\<close> finds the leftmost cut, and nothing else is one.\<close>

lemma re_segments_cut:
  "re_segments ic r ma p s = (segs, rest) \<Longrightarrow> leftmost_cut ic r ma p segs rest"
proof (induction ic r ma p s arbitrary: segs rest rule: re_segments.induct)
  case (1 ic r must_advance p s)
  show ?case
  proof (cases "re_search ic r must_advance p s")
    case None
    with "1.prems" have "segs = []" "rest = s" by (simp_all add: re_segments.simps)
    with re_search_none[OF None] show ?thesis by simp
  next
    case (Some found)
    obtain gap m p' s' where found: "found = (gap, m, p', s')" by (cases found) auto
    obtain segs' rest' where rec: "re_segments ic r (m = []) p' s' = (segs', rest')"
      by (cases "re_segments ic r (m = []) p' s'")
    from "1.prems" Some found rec have segs: "segs = (gap, m) # segs'" "rest = rest'"
      by (simp_all add: re_segments.simps)
    from "1.IH"[OF Some found[symmetric] refl refl rec]
    have ih: "leftmost_cut ic r (m = []) p' segs' rest'" .
    from re_segments_flat[OF rec] have s': "s' = flat segs' @ rest'" .
    from Some found have "re_search ic r must_advance p s = Some (gap, m, p', s')" by simp
    from re_search_found[OF this] ih s' segs show ?thesis by simp
  qed
qed

lemma cut_re_segments:
  "leftmost_cut ic r ma p segs rest \<Longrightarrow> re_segments ic r ma p (flat segs @ rest) = (segs, rest)"
proof (induction segs arbitrary: ma p)
  case Nil
  then have "re_search ic r ma p rest = None" by (simp add: re_search_no)
  then show ?case by (simp add: re_segments.simps)
next
  case (Cons seg segs)
  obtain gap m where seg: "seg = (gap, m)" by (cases seg)
  from Cons.prems seg have
    un: "unmatched ic r ma p gap (m @ flat segs @ rest)" and
    here: "map_option (\<lambda>(n, p', s'). (n, s'))
             (match_here ic r (ma \<and> gap = []) (last_char p gap) (m @ flat segs @ rest))
           = Some (length m, flat segs @ rest)" and
    more: "leftmost_cut ic r (m = []) (last_char (last_char p gap) m) segs rest"
    by simp_all
  from re_search_cut[OF un here]
  have "re_search ic r ma p (gap @ m @ flat segs @ rest)
      = Some (gap, m, last_char (last_char p gap) m, flat segs @ rest)" .
  moreover from Cons.IH[OF more]
  have "re_segments ic r (m = []) (last_char (last_char p gap) m) (flat segs @ rest)
      = (segs, rest)" .
  ultimately show ?case using seg by (simp add: re_segments.simps)
qed

lemma marked_concat: "concat (map (\<lambda>(gap, m). gap @ repl) segs) = marked repl segs"
  by (induction segs) auto

lemma re_sub_cut:
  assumes "u = flat segs @ rest" "leftmost_cut True r False None segs rest"
  shows "re_sub r repl u = marked repl segs @ rest"
  using cut_re_segments[OF assms(2)] assms(1) by (simp add: re_sub_def marked_concat)

lemma cut_exists: "\<exists>segs rest. u = flat segs @ rest \<and> leftmost_cut True r False None segs rest"
proof -
  obtain segs rest where seg: "re_segments True r False None u = (segs, rest)"
    by (cases "re_segments True r False None u")
  from re_segments_flat[OF seg] re_segments_cut[OF seg] show ?thesis by blast
qed

section \<open>The entity stage\<close>

lemma replace_spans_append:
  "replace_spans t (xs @ ys) = replace_spans (replace_spans t xs) ys"
  by (induction xs arbitrary: t) auto

lemma replace_spans_rev_chain:
  assumes "chain pos asc" "\<forall>(s, e, l) \<in> set asc. e \<le> length t"
  shows "replace_spans t (rev asc) = take pos t @ splice_from pos t asc"
  using assms
proof (induction asc arbitrary: pos)
  case Nil
  then show ?case by simp
next
  case (Cons x asc)
  obtain s e l where x: "x = (s, e, l)" by (cases x)
  from Cons.prems x have le: "pos \<le> s" "s \<le> e" "e \<le> length t" and ch: "chain e asc"
    and bound: "\<forall>(s, e, l) \<in> set asc. e \<le> length t" by auto
  let ?u = "replace_spans t (rev asc)"
  from Cons.IH[OF ch bound] have u: "?u = take e t @ splice_from e t asc" .
  have "replace_spans t (rev (x # asc)) = take s ?u @ ''***'' @ drop e ?u"
    by (simp add: replace_spans_append x)
  also have "take s ?u = take s t" using le by (simp add: u min_def)
  also have "drop e ?u = splice_from e t asc" using le by (simp add: u)
  also have "take s t = take pos t @ take (s - pos) (drop pos t)"
    using le(1) take_add[of pos "s - pos" t] by simp
  finally show ?case by (simp add: x)
qed

lemma sorted_chain:
  assumes "sorted (map fst xs)" "distinct xs"
    "\<forall>x \<in> set xs. \<forall>y \<in> set xs. x \<noteq> y \<longrightarrow> disjoint_spans x y"
    "\<forall>(s, e, l) \<in> set xs. s < e" "\<forall>x \<in> set xs. pos \<le> fst x"
  shows "chain pos xs"
  using assms
proof (induction xs arbitrary: pos)
  case Nil
  then show ?case by simp
next
  case (Cons x xs)
  obtain s e l where x: "x = (s, e, l)" by (cases x)
  have "e \<le> fst y" if y: "y \<in> set xs" for y
  proof -
    obtain s' e' l' where y': "y = (s', e', l')" by (cases y)
    from Cons.prems(2) y have "x \<noteq> y" by auto
    with Cons.prems(3) y have "disjoint_spans x y" by simp
    moreover from Cons.prems(1) y x y' have "s \<le> s'" by auto
    moreover from Cons.prems(4) y y' have "s' < e'" by auto
    ultimately show ?thesis using x y' by auto
  qed
  then have "chain e xs" using Cons.prems by (intro Cons.IH) auto
  with Cons.prems x show ?case by auto
qed

lemma starts_inj:
  assumes "non_overlapping spans" "\<forall>(s, e, l) \<in> set spans. s < e"
  shows "inj_on fst (set spans)"
proof (rule inj_onI)
  fix x y assume xy: "x \<in> set spans" "y \<in> set spans" "fst x = fst y"
  show "x = y"
  proof (rule ccontr)
    assume "x \<noteq> y"
    with assms(1) xy have d: "disjoint_spans x y" by (simp add: non_overlapping_def)
    obtain s e l s' e' l' where "x = (s, e, l)" "y = (s', e', l')" by (cases x, cases y) auto
    with d xy assms(2) show False by fastforce
  qed
qed

lemma descending_is_splice:
  assumes "spans_of_buffer t spans"
  shows "replace_spans t (sort_reverse spans) = splice_reference t spans"
proof -
  from assms have nonempty: "\<forall>(s, e, l) \<in> set spans. s < e"
    and inside: "\<forall>(s, e, l) \<in> set spans. e \<le> length t"
    and no: "non_overlapping spans"
    by (auto simp: spans_of_buffer_def)
  let ?asc = "sort_key fst spans"
  have "sort_key fst (rev spans) = ?asc"
    by (rule sort_key_inj_key_eq) (use starts_inj[OF no nonempty] in simp_all)
  then have rev: "sort_reverse spans = rev ?asc" by (simp add: sort_reverse_def)
  have "chain 0 ?asc"
    by (rule sorted_chain) (use no nonempty in \<open>auto simp: non_overlapping_def\<close>)
  from replace_spans_rev_chain[OF this] inside
  have "replace_spans t (rev ?asc) = take 0 t @ splice_from 0 t ?asc" by simp
  with rev show ?thesis by (simp add: splice_reference_def)
qed

lemma spans_chain:
  assumes "spans_of_buffer t spans"
  shows "chain 0 (sort_key fst spans)"
  by (rule sorted_chain) (use assms in \<open>auto simp: spans_of_buffer_def non_overlapping_def\<close>)

lemma splice_keeps:
  assumes "chain pos asc" "pos \<le> length a"
    "\<forall>(s, e, l) \<in> set asc. e \<le> length a \<or> length a + length p \<le> s"
  shows "sublist p (splice_from pos (a @ p @ b) asc)"
  using assms
proof (induction asc arbitrary: pos)
  case Nil
  then show ?case by simp
next
  case (Cons x asc)
  obtain s e l where x: "x = (s, e, l)" by (cases x)
  from Cons.prems x have ch: "pos \<le> s" "s \<le> e" "chain e asc"
    and rest: "\<forall>(s, e, l) \<in> set asc. e \<le> length a \<or> length a + length p \<le> s"
    and side: "e \<le> length a \<or> length a + length p \<le> s" by auto
  from side show ?case
  proof
    assume "e \<le> length a"
    from Cons.IH[OF ch(3) this rest] show ?thesis
      unfolding x splice_from.simps by (metis sublist_append)
  next
    assume right: "length a + length p \<le> s"
    have "drop pos (a @ p @ b) = (drop pos a @ p) @ b" using Cons.prems(2) by simp
    moreover have "length (drop pos a @ p) \<le> s - pos" using right Cons.prems(2) by simp
    ultimately have "take (s - pos) (drop pos (a @ p @ b))
        = (drop pos a @ p) @ take (s - pos - length (drop pos a @ p)) b"
      by (metis take_append take_all)
    then show ?thesis unfolding x splice_from.simps
      by (metis append.assoc sublist_appendI)
  qed
qed

lemma apply_entities_keeps:
  assumes "spares nlp (a @ p @ b) (length a) (length a + length p)"
  shows "sublist p (apply_entities nlp (a @ p @ b))"
proof (cases nlp)
  case None
  then show ?thesis by (simp add: apply_entities_def)
next
  case (Some recognize)
  show ?thesis
  proof (cases "recognize (a @ p @ b)")
    case (Inl e)
    with Some show ?thesis by (simp add: apply_entities_def)
  next
    case (Inr ents)
    let ?spans = "entities_to_scrub_tuples ents"
    from assms Some Inr have ok: "spans_of_buffer (a @ p @ b) ?spans"
      and out: "\<forall>(s, e, l) \<in> set ?spans. e \<le> length a \<or> length a + length p \<le> s"
      by (simp_all add: spares_def)
    from out have "\<forall>(s, e, l) \<in> set (sort_key fst ?spans). e \<le> length a \<or> length a + length p \<le> s"
      by simp
    from splice_keeps[OF spans_chain[OF ok] _ this, of b]
    have "sublist p (splice_reference (a @ p @ b) ?spans)" by (simp add: splice_reference_def)
    with descending_is_splice[OF ok] Some Inr show ?thesis by (simp add: apply_entities_def)
  qed
qed

section \<open>Matching does not depend on the case of the text\<close>

lemma lower_upper_bits:
  "is_lower c \<Longrightarrow> is_upper (set_bit5 False c) \<and> set_bit5 True (set_bit5 False c) = c"
  "is_upper c \<Longrightarrow> is_lower (set_bit5 True c) \<and> set_bit5 False (set_bit5 True c) = c"
  "is_lower c \<Longrightarrow> \<not> is_upper c"
  by (cases c; auto simp: is_lower_def is_upper_def)+

lemma to_lower_to_upper: "to_lower (to_upper c) = to_lower c"
  using lower_upper_bits[of c] by (auto simp: to_lower_def to_upper_def)

lemma in_class_to_upper: "in_class True cs (to_upper c) = in_class True cs c"
  by (simp add: in_class_def to_lower_to_upper)

lemma is_word_to_upper: "is_word (to_upper c) = is_word c"
  using lower_upper_bits(1)[of c] by (auto simp: to_upper_def is_word_def)

lemma prev_is_word_upper: "prev_is_word (map_option to_upper p) = prev_is_word p"
  by (cases p) (simp_all add: is_word_to_upper)

lemma next_is_word_upper: "next_is_word (map to_upper s) = next_is_word s"
  by (cases s) (simp_all add: is_word_to_upper)

lemma many_upper:
  "many True cs lo hi (n, map_option to_upper p, map to_upper s)
     = map upper_state (many True cs lo hi (n, p, s))"
proof (induction s arbitrary: lo hi n p)
  case Nil
  then show ?case by simp
next
  case (Cons x xs)
  have ih: "many True cs lo' hi' (n', Some (to_upper x), map to_upper xs)
      = map upper_state (many True cs lo' hi' (n', Some x, xs))" for lo' hi' n'
    using Cons.IH[of lo' hi' n' "Some x"] by simp
  show ?case by (simp add: in_class_to_upper ih)
qed

lemma rx_match_upper:
  "rx_match True r (upper_state st) = map upper_state (rx_match True r st)"
proof (induction r arbitrary: st)
  case (Lit a)
  obtain n p s where "st = (n, p, s)" by (cases st)
  then show ?case by (cases s) (simp_all add: in_class_to_upper)
next
  case (Cls cs)
  obtain n p s where "st = (n, p, s)" by (cases st)
  then show ?case by (cases s) (simp_all add: in_class_to_upper)
next
  case (Many cs lo hi)
  obtain n p s where "st = (n, p, s)" by (cases st)
  then show ?case by (simp add: many_upper)
next
  case (Seq r1 r2)
  then show ?case by (simp add: map_concat comp_def)
next
  case WordB
  obtain n p s where "st = (n, p, s)" by (cases st)
  then show ?case by (simp add: prev_is_word_upper next_is_word_upper)
qed simp_all

lemma first_match_upper:
  "first_match ma (map upper_state sts) = map_option upper_state (first_match ma sts)"
  by (induction ma sts rule: first_match.induct) simp_all

lemma match_here_upper:
  "match_here True r ma (map_option to_upper p) (map to_upper s)
     = map_option upper_state (match_here True r ma p s)"
  using rx_match_upper[of r "(0, p, s)"] by (simp add: match_here_def first_match_upper)

lemma re_search_upper:
  "re_search True r ma (map_option to_upper p) (map to_upper s)
     = map_option upper_found (re_search True r ma p s)"
proof (induction s arbitrary: ma p)
  case Nil
  show ?case
  proof (cases "match_here True r ma p []")
    case None
    with match_here_upper[of r ma p "[]"] show ?thesis by simp
  next
    case (Some st)
    obtain n p' s' where "st = (n, p', s')" by (cases st)
    with Some match_here_upper[of r ma p "[]"] show ?thesis by simp
  qed
next
  case (Cons c cs)
  have tk: "take n (to_upper c # map to_upper cs) = map to_upper (take n (c # cs))" for n
    by (cases n) (simp_all add: take_map)
  show ?case
  proof (cases "match_here True r ma p (c # cs)")
    case None
    then have here: "match_here True r ma (map_option to_upper p) (to_upper c # map to_upper cs) = None"
      using match_here_upper[of r ma p "c # cs"] by simp
    show ?thesis
    proof (cases "re_search True r False (Some c) cs")
      case inner: None
      with Cons.IH[of False "Some c"] None here show ?thesis by simp
    next
      case (Some found)
      obtain gap m p' s' where "found = (gap, m, p', s')" by (cases found) auto
      with Some Cons.IH[of False "Some c"] None here show ?thesis by simp
    qed
  next
    case (Some st)
    obtain n p' s' where st: "st = (n, p', s')" by (cases st)
    with Some have "match_here True r ma (map_option to_upper p) (to_upper c # map to_upper cs)
        = Some (n, map_option to_upper p', map to_upper s')"
      using match_here_upper[of r ma p "c # cs"] by simp
    with Some st tk show ?thesis by simp
  qed
qed

lemma re_segments_upper:
  "re_segments True r ma (map_option to_upper p) (map to_upper s)
     = upper_segments (re_segments True r ma p s)"
proof (induction True r ma p s rule: re_segments.induct)
  case (1 r must_advance p s)
  have lhs: "re_segments True r must_advance (map_option to_upper p) (map to_upper s) =
      (case map_option upper_found (re_search True r must_advance p s) of
         None \<Rightarrow> ([], map to_upper s)
       | Some (gap, m, p', s') \<Rightarrow>
           (case re_segments True r (m = []) p' s' of
              (segs, rest) \<Rightarrow> ((gap, m) # segs, rest)))"
    by (subst re_segments.simps) (simp only: re_search_upper)
  have rhs: "re_segments True r must_advance p s =
      (case re_search True r must_advance p s of
         None \<Rightarrow> ([], s)
       | Some (gap, m, p', s') \<Rightarrow>
           (case re_segments True r (m = []) p' s' of
              (segs, rest) \<Rightarrow> ((gap, m) # segs, rest)))"
    by (rule re_segments.simps)
  show ?case
  proof (cases "re_search True r must_advance p s")
    case None
    then show ?thesis unfolding lhs rhs by simp
  next
    case (Some found)
    obtain gap m p' s' where found: "found = (gap, m, p', s')" by (cases found) auto
    obtain segs rest where rec: "re_segments True r (m = []) p' s' = (segs, rest)"
      by (cases "re_segments True r (m = []) p' s'")
    have eq: "re_search True r must_advance p s = Some (gap, m, p', s')"
      using Some found by simp
    from "1.hyps"[OF eq refl refl refl] rec
    have "re_segments True r (m = []) (map_option to_upper p') (map to_upper s')
        = upper_segments (segs, rest)" by (simp only:)
    with eq rec show ?thesis unfolding lhs rhs by simp
  qed
qed

lemma re_sub_upper:
  assumes "map to_upper repl = repl"
  shows "re_sub r repl (map to_upper t) = map to_upper (re_sub r repl t)"
proof -
  obtain segs rest where seg: "re_segments True r False None t = (segs, rest)"
    by (cases "re_segments True r False None t")
  have "concat (map (\<lambda>(gap, m). gap @ repl) (map (\<lambda>(gap, m). (map to_upper gap, map to_upper m)) segs))
      = map to_upper (concat (map (\<lambda>(gap, m). gap @ repl) segs))"
    using assms by (induction segs) auto
  with re_segments_upper[of r False None t] seg show ?thesis
    by (simp add: re_sub_def)
qed

section \<open>The card number of the specification\<close>

lemma shield_card:
  "shield ''My Card is 1234-5678-9012-3456, thanks.'' = (shielded_card, [''1234-5678-9012-3456''])"
  by code_simp

lemma rules_card: "apply_rules shielded_card = shielded_card"
  by code_simp

section \<open>The claims\<close>

text \<open>
  C1, as the code has it. For the input \<^verbatim>\<open>"My Card is 1234-5678-9012-3456, thanks."\<close>
  no rule fires on the shielded text, and the output of \<^verbatim>\<open>scrub_pii\<close> holds the card
  number verbatim whenever the recognizer is absent, raises, or returns entities whose
  spans to scrub are spans of the text it was given, do not overlap each other and lie
  outside the placeholder, which stands at the characters 11 to 36 of that text.
\<close>

theorem card_number_survives:
  assumes "spares nlp shielded_card 11 36"
  shows "\<exists>out. scrub_pii nlp (PyStr ''My Card is 1234-5678-9012-3456, thanks.'') = Some (PyStr out)
           \<and> sublist ''1234-5678-9012-3456'' out"
proof -
  let ?t = "apply_entities nlp shielded_card"
  define a0 where "a0 = ''My Card is ''"
  define b0 where "b0 = '', thanks.''"
  have split: "shielded_card = a0 @ placeholder 0 @ b0"
    by (simp add: a0_def b0_def shielded_card_def placeholder_def stem_def str_of_nat.simps
        digit_char_def)
  have len: "11 = length a0" "36 = length a0 + length (placeholder 0)"
    by (simp_all add: a0_def length_placeholder str_of_nat.simps)
  from assms have "spares nlp (a0 @ placeholder 0 @ b0) (length a0)
      (length a0 + length (placeholder 0))"
    unfolding split by (subst (asm) len(2), subst (asm) len(1))
  from apply_entities_keeps[OF this] have "sublist (placeholder 0) ?t"
    by (simp only: split)
  from restore_single[OF this, of "''1234-5678-9012-3456''"] obtain out where
    "restore ?t [''1234-5678-9012-3456''] = Some out" "sublist ''1234-5678-9012-3456'' out"
    by auto
  then show ?thesis
    by (simp add: scrub_pii_def shield_card rules_card)
qed

theorem card_number_survives_witness:
  "(spares (Some thanks_recognizer) shielded_card 11 36
    \<and> (\<exists>out. scrub_pii (Some thanks_recognizer)
                 (PyStr ''My Card is 1234-5678-9012-3456, thanks.'') = Some (PyStr out)
           \<and> sublist ''1234-5678-9012-3456'' out))
   \<and> (spares (Some failing_recognizer) shielded_card 11 36
    \<and> (\<exists>out. scrub_pii (Some failing_recognizer)
                 (PyStr ''My Card is 1234-5678-9012-3456, thanks.'') = Some (PyStr out)
           \<and> sublist ''1234-5678-9012-3456'' out))"
proof -
  have one: "spares (Some thanks_recognizer) shielded_card 11 36"
    by code_simp
  have two: "spares (Some failing_recognizer) shielded_card 11 36"
    by code_simp
  from one two card_number_survives[OF one] card_number_survives[OF two]
  show ?thesis by (intro conjI)
qed

text \<open>
  C1, as the claim states it, fails: a recognizer that returns the span of the
  placeholder as an entity has it replaced by the marker, and the card number is lost.
\<close>

theorem card_number_lost:
  "scrub_pii (Some placeholder_recognizer) (PyStr ''My Card is 1234-5678-9012-3456, thanks.'')
     = Some (PyStr ''My Card is ***, thanks.'')"
proof -
  have "apply_entities (Some placeholder_recognizer) shielded_card = ''My Card is ***, thanks.''"
    by code_simp
  moreover have "restore ''My Card is ***, thanks.'' [''1234-5678-9012-3456'']
      = Some ''My Card is ***, thanks.''"
    by code_simp
  ultimately show ?thesis
    by (simp add: scrub_pii_def shield_card rules_card)
qed

text \<open>
  C2, as the code has it. For every text that does not contain
  \<^verbatim>\<open>@@TEMP_CC_PLACEHOLDER_\<close>, shielding the text and restoring the shielded text at once
  gives the text back.
\<close>

theorem shield_then_restore:
  assumes "\<not> sublist stem x"
  shows "restore (fst (shield x)) (snd (shield x)) = Some x"
proof -
  obtain segs rest where
    seg: "re_segments True TEMP_CREDIT_CARD_IGNORE_PATTERN False None x = (segs, rest)"
    by (cases "re_segments True TEMP_CREDIT_CARD_IGNORE_PATTERN False None x")
  from shield_segments[OF seg] restore_numbered[of "[]" segs rest "[]" 0] assms
  show ?thesis by (simp add: restore_def)
qed

theorem shield_then_restore_witness:
  "\<not> sublist stem ''Visa 4000 0000 0000 0002, then 4111111111111111.''
   \<and> restore (fst (shield ''Visa 4000 0000 0000 0002, then 4111111111111111.''))
         (snd (shield ''Visa 4000 0000 0000 0002, then 4111111111111111.''))
       = Some ''Visa 4000 0000 0000 0002, then 4111111111111111.''"
proof -
  have clean: "\<not> sublist stem ''Visa 4000 0000 0000 0002, then 4111111111111111.''"
    by code_simp
  from clean shield_then_restore[OF clean] show ?thesis by (intro conjI)
qed

text \<open>
  C2, as the claim states it, fails on a text that holds a placeholder of its own: no
  card number is recorded, and the loop puts the sentinel in its place.
\<close>

theorem literal_placeholder_not_restored:
  "restore (fst (shield ''@@TEMP_CC_PLACEHOLDER_0@@'')) (snd (shield ''@@TEMP_CC_PLACEHOLDER_0@@''))
     = Some ''[UNEXPECTED_CC_PLACEHOLDER]''"
  by code_simp

text \<open>
  C3, as the code has it. The restore loop tries the indices 0, 1, 2, ... in turn and ends
  at the first index whose placeholder is not in the text, returning the text as it is
  then: the placeholders of greater indices stay in the text. At an index whose
  placeholder is in the text, one occurrence, the first, is replaced by the recorded match
  of that index (by the sentinel, when no match is recorded for the index), and the loop
  goes on with the next index.
\<close>

theorem restore_stops_at_first_missing_index:
  "(\<not> sublist (placeholder k) t \<longrightarrow> restore_loop t cc k = Some t)
   \<and> (sublist (placeholder k) t \<longrightarrow>
        (\<exists>a b. t = a @ placeholder k @ b
           \<and> (\<forall>a' b'. t = a' @ placeholder k @ b' \<longrightarrow> length a \<le> length a')
           \<and> restore_loop t cc k =
               restore_loop (a @ (if k < length cc then cc ! k else sentinel) @ b) cc (Suc k)))"
  using restore_loop_stop restore_loop_step by blast

theorem restore_stops_at_first_missing_index_witness:
  "(\<not> sublist (placeholder 0) ''***'' \<and> restore_loop ''***'' [''4000-0000-0000-0002''] 0 = Some ''***'')
   \<and> (sublist (placeholder 0) ''Card @@TEMP_CC_PLACEHOLDER_0@@.''
       \<and> (\<exists>a b. ''Card @@TEMP_CC_PLACEHOLDER_0@@.'' = a @ placeholder 0 @ b
             \<and> (\<forall>a' b'. ''Card @@TEMP_CC_PLACEHOLDER_0@@.'' = a' @ placeholder 0 @ b'
                   \<longrightarrow> length a \<le> length a')
             \<and> restore_loop ''Card @@TEMP_CC_PLACEHOLDER_0@@.'' [''4000-0000-0000-0002''] 0 =
                 restore_loop (a @ ''4000-0000-0000-0002'' @ b) [''4000-0000-0000-0002''] (Suc 0)))"
proof -
  have absent: "\<not> sublist (placeholder 0) ''***''"
    by code_simp
  have present: "sublist (placeholder 0) ''Card @@TEMP_CC_PLACEHOLDER_0@@.''"
    by code_simp
  from absent present
    restore_stops_at_first_missing_index[of 0 "''***''" "[''4000-0000-0000-0002'']"]
    restore_stops_at_first_missing_index[of 0 "''Card @@TEMP_CC_PLACEHOLDER_0@@.''"
      "[''4000-0000-0000-0002'']"]
  show ?thesis by simp
qed

text \<open>
  C3, as the claim states it, fails: the placeholder of index 0 is gone, the one of index
  1 is in the text and has a recorded match, and the loop leaves it there.
\<close>

theorem later_placeholders_not_restored:
  "restore ''*** and @@TEMP_CC_PLACEHOLDER_1@@'' [''1111-2222-3333-4444'', ''5555-6666-7777-8888'']
     = Some ''*** and @@TEMP_CC_PLACEHOLDER_1@@''"
  by code_simp

text \<open>
  C5. When the loop finds the placeholder of an index for which no match is recorded, it
  replaces one occurrence of it, the first, by the sentinel
  \<^verbatim>\<open>[UNEXPECTED_CC_PLACEHOLDER]\<close>, which is not the marker \<^verbatim>\<open>***\<close> and is not a match that
  shielding can record.
\<close>

theorem unexpected_placeholder_gets_sentinel:
  assumes "length cc \<le> idx" "sublist (placeholder idx) t"
  shows "(\<exists>a b. t = a @ placeholder idx @ b
            \<and> (\<forall>a' b'. t = a' @ placeholder idx @ b' \<longrightarrow> length a \<le> length a')
            \<and> restore_loop t cc idx = restore_loop (a @ sentinel @ b) cc (Suc idx))
         \<and> sentinel = ''[UNEXPECTED_CC_PLACEHOLDER]'' \<and> sentinel \<noteq> ''***''
         \<and> (\<forall>x. sentinel \<notin> set (snd (shield x)))"
proof -
  from restore_loop_step[OF assms(2), of cc] assms(1)
  have "\<exists>a b. t = a @ placeholder idx @ b
            \<and> (\<forall>a' b'. t = a' @ placeholder idx @ b' \<longrightarrow> length a \<le> length a')
            \<and> restore_loop t cc idx = restore_loop (a @ sentinel @ b) cc (Suc idx)"
    by simp
  moreover have "sentinel = ''[UNEXPECTED_CC_PLACEHOLDER]''" "sentinel \<noteq> ''***''"
    by (simp_all add: sentinel_def)
  ultimately show ?thesis using sentinel_not_recorded by blast
qed

theorem unexpected_placeholder_gets_sentinel_witness:
  "length ([] :: string list) \<le> 0 \<and> sublist (placeholder 0) ''Card @@TEMP_CC_PLACEHOLDER_0@@.''
   \<and> (\<exists>a b. ''Card @@TEMP_CC_PLACEHOLDER_0@@.'' = a @ placeholder 0 @ b
         \<and> restore_loop ''Card @@TEMP_CC_PLACEHOLDER_0@@.'' [] 0
             = restore_loop (a @ sentinel @ b) [] (Suc 0))
   \<and> restore ''Card @@TEMP_CC_PLACEHOLDER_0@@.'' [] = Some ''Card [UNEXPECTED_CC_PLACEHOLDER].''"
proof -
  have present: "sublist (placeholder 0) ''Card @@TEMP_CC_PLACEHOLDER_0@@.''"
    by code_simp
  have out: "restore ''Card @@TEMP_CC_PLACEHOLDER_0@@.'' [] = Some ''Card [UNEXPECTED_CC_PLACEHOLDER].''"
    by code_simp
  from unexpected_placeholder_gets_sentinel[OF _ present, of "[]"]
  have "\<exists>a b. ''Card @@TEMP_CC_PLACEHOLDER_0@@.'' = a @ placeholder 0 @ b
         \<and> restore_loop ''Card @@TEMP_CC_PLACEHOLDER_0@@.'' [] 0
             = restore_loop (a @ sentinel @ b) [] (Suc 0)"
    by auto
  with present out show ?thesis by simp
qed

text \<open>
  C6. The rules are the nine substitutions, in the order postal code, passport, SIN,
  first phone pattern, second phone pattern, email, date of birth, PO box, address, each
  working on the text the one before has left. Each substitution is global and its
  matches do not overlap: its text has a leftmost cut into gaps and matches, and whatever
  leftmost cut the text has, the result is the gaps with the marker \<^verbatim>\<open>***\<close> for every
  match, and the rest. A substitution does not see the case of the letters of the text.
  Each of the nine patterns replaces two matches, in either case, in a text of its kind;
  and in \<^verbatim>\<open>Call 555.987.6543!\<close> the SIN rule has taken the digits before the phone rules
  see them.
\<close>

theorem rules_in_catalog_order:
  "apply_rules t =
     foldl (\<lambda>u r. re_sub r ''***'' u) t
       [POSTAL_CODE_PATTERN, PASSPORT_PATTERN, SIN_PATTERN, PHONE_PATTERN_1, PHONE_PATTERN_2,
        EMAIL_PATTERN, DOB_PATTERN, PO_BOX_PATTERN, ADDRESS_PATTERN]
   \<and> (\<exists>segs rest. u = flat segs @ rest \<and> leftmost_cut True r False None segs rest)
   \<and> (u = flat segs @ rest \<and> leftmost_cut True r False None segs rest
        \<longrightarrow> re_sub r ''***'' u = marked ''***'' segs @ rest)
   \<and> re_sub r ''***'' (map to_upper u) = map to_upper (re_sub r ''***'' u)
   \<and> re_sub POSTAL_CODE_PATTERN ''***'' ''Codes K1A 0B1, k1a-0b1.'' = ''Codes ***, ***.''
   \<and> re_sub PASSPORT_PATTERN ''***'' ''Passports AB123456, cd 654321.'' = ''Passports ***, ***.''
   \<and> re_sub SIN_PATTERN ''***'' ''SIN 123 456 789, 987-654-321.'' = ''SIN ***, ***.''
   \<and> re_sub PHONE_PATTERN_1 ''***'' ''Call +1 .555-123-4567, 1-.(555)1234567!'' = ''Call ***, ***!''
   \<and> re_sub PHONE_PATTERN_2 ''***'' ''Call (555) 234-5678 EXT. 9, 555.987.6543!''
       = ''Call ***, ***!''
   \<and> re_sub EMAIL_PATTERN ''***'' ''Mail a.b@web.net; C_D@WEB.ORG!'' = ''Mail ***; ***!''
   \<and> re_sub DOB_PATTERN ''***'' ''Born 05/10/1985; 1970-01-01!'' = ''Born ***; ***!''
   \<and> re_sub PO_BOX_PATTERN ''***'' ''PO Box 12, GENERAL DELIVERY 500!'' = ''***, ***!''
   \<and> re_sub ADDRESS_PATTERN ''***'' ''At 123 Main Street, 9 OAK RD!'' = ''***, ***!''
   \<and> apply_rules ''Call 555.987.6543!'' = ''Call ***3!''"
proof -
  have order: "apply_rules t =
     foldl (\<lambda>u r. re_sub r ''***'' u) t
       [POSTAL_CODE_PATTERN, PASSPORT_PATTERN, SIN_PATTERN, PHONE_PATTERN_1, PHONE_PATTERN_2,
        EMAIL_PATTERN, DOB_PATTERN, PO_BOX_PATTERN, ADDRESS_PATTERN]"
    by (simp add: apply_rules_def)
  have cut: "\<exists>segs rest. u = flat segs @ rest \<and> leftmost_cut True r False None segs rest"
    by (rule cut_exists)
  have only: "u = flat segs @ rest \<and> leftmost_cut True r False None segs rest
        \<longrightarrow> re_sub r ''***'' u = marked ''***'' segs @ rest"
    using re_sub_cut by blast
  have "map to_upper ''***'' = ''***''"
    by code_simp
  from re_sub_upper[OF this]
  have upper: "re_sub r ''***'' (map to_upper u) = map to_upper (re_sub r ''***'' u)" .
  have postal: "re_sub POSTAL_CODE_PATTERN ''***'' ''Codes K1A 0B1, k1a-0b1.'' = ''Codes ***, ***.''"
    by code_simp
  have passport:
    "re_sub PASSPORT_PATTERN ''***'' ''Passports AB123456, cd 654321.'' = ''Passports ***, ***.''"
    by code_simp
  have sin: "re_sub SIN_PATTERN ''***'' ''SIN 123 456 789, 987-654-321.'' = ''SIN ***, ***.''"
    by code_simp
  have phone1:
    "re_sub PHONE_PATTERN_1 ''***'' ''Call +1 .555-123-4567, 1-.(555)1234567!'' = ''Call ***, ***!''"
    by code_simp
  have phone2:
    "re_sub PHONE_PATTERN_2 ''***'' ''Call (555) 234-5678 EXT. 9, 555.987.6543!''
       = ''Call ***, ***!''"
    by code_simp
  have email: "re_sub EMAIL_PATTERN ''***'' ''Mail a.b@web.net; C_D@WEB.ORG!'' = ''Mail ***; ***!''"
    by code_simp
  have dob: "re_sub DOB_PATTERN ''***'' ''Born 05/10/1985; 1970-01-01!'' = ''Born ***; ***!''"
    by code_simp
  have po_box: "re_sub PO_BOX_PATTERN ''***'' ''PO Box 12, GENERAL DELIVERY 500!'' = ''***, ***!''"
    by code_simp
  have address: "re_sub ADDRESS_PATTERN ''***'' ''At 123 Main Street, 9 OAK RD!'' = ''***, ***!''"
    by code_simp
  have earlier: "apply_rules ''Call 555.987.6543!'' = ''Call ***3!''"
    by code_simp
  from order cut only upper postal passport sin phone1 phone2 email dob po_box address earlier
  show ?thesis by (intro conjI)
qed

theorem rules_in_catalog_order_witness:
  "foldl (\<lambda>u r. re_sub r ''***'' u) ''Mail a.b@web.net''
       [POSTAL_CODE_PATTERN, PASSPORT_PATTERN, SIN_PATTERN, PHONE_PATTERN_1, PHONE_PATTERN_2,
        EMAIL_PATTERN, DOB_PATTERN, PO_BOX_PATTERN, ADDRESS_PATTERN] = ''Mail ***''
   \<and> ''Mail a.b@web.net; C_D@WEB.ORG!''
       = flat [(''Mail '', ''a.b@web.net''), (''; '', ''C_D@WEB.ORG'')] @ ''!''
   \<and> leftmost_cut True EMAIL_PATTERN False None
         [(''Mail '', ''a.b@web.net''), (''; '', ''C_D@WEB.ORG'')] ''!''
   \<and> re_sub EMAIL_PATTERN ''***'' ''Mail a.b@web.net; C_D@WEB.ORG!''
       = marked ''***'' [(''Mail '', ''a.b@web.net''), (''; '', ''C_D@WEB.ORG'')] @ ''!''
   \<and> re_sub EMAIL_PATTERN ''***'' (map to_upper ''Mail a.b@web.net'') = ''MAIL ***''"
proof -
  have rules: "apply_rules ''Mail a.b@web.net'' = ''Mail ***''"
    by code_simp
  have up: "map to_upper (re_sub EMAIL_PATTERN ''***'' ''Mail a.b@web.net'') = ''MAIL ***''"
    by code_simp
  have parts: "''Mail a.b@web.net; C_D@WEB.ORG!''
       = flat [(''Mail '', ''a.b@web.net''), (''; '', ''C_D@WEB.ORG'')] @ ''!''"
    by simp
  have cut: "leftmost_cut True EMAIL_PATTERN False None
         [(''Mail '', ''a.b@web.net''), (''; '', ''C_D@WEB.ORG'')] ''!''"
    by code_simp
  note inst = rules_in_catalog_order[of "''Mail a.b@web.net''" "''Mail a.b@web.net; C_D@WEB.ORG!''"
      EMAIL_PATTERN "[(''Mail '', ''a.b@web.net''), (''; '', ''C_D@WEB.ORG'')]" "''!''"]
  from inst parts cut
  have out: "re_sub EMAIL_PATTERN ''***'' ''Mail a.b@web.net; C_D@WEB.ORG!''
       = marked ''***'' [(''Mail '', ''a.b@web.net''), (''; '', ''C_D@WEB.ORG'')] @ ''!''"
    by blast
  from rules_in_catalog_order[of "''Mail a.b@web.net''" "''Mail a.b@web.net''"
      EMAIL_PATTERN "[]" "[]"] rules up
  have one: "foldl (\<lambda>u r. re_sub r ''***'' u) ''Mail a.b@web.net''
       [POSTAL_CODE_PATTERN, PASSPORT_PATTERN, SIN_PATTERN, PHONE_PATTERN_1, PHONE_PATTERN_2,
        EMAIL_PATTERN, DOB_PATTERN, PO_BOX_PATTERN, ADDRESS_PATTERN] = ''Mail ***''"
    and two: "re_sub EMAIL_PATTERN ''***'' (map to_upper ''Mail a.b@web.net'') = ''MAIL ***''"
    by simp_all
  from one parts cut out two show ?thesis by (intro conjI)
qed

text \<open>
  C7. For every buffer and every list of spans of the buffer that do not overlap, the
  program's rewrite, which sorts the spans by descending start and replaces one after
  the other, gives the string of the reference construction.
\<close>

theorem descending_rewrite_is_splice:
  "spans_of_buffer buf spans
    \<Longrightarrow> replace_spans buf (sort_reverse spans) = splice_reference buf spans"
  by (rule descending_is_splice)

theorem descending_rewrite_is_splice_witness:
  "spans_of_buffer ''Dear Anna, we go to London now'' [(5, 9, ''PERSON''), (20, 26, ''GPE'')]
   \<and> replace_spans ''Dear Anna, we go to London now''
         (sort_reverse [(5, 9, ''PERSON''), (20, 26, ''GPE'')])
       = splice_reference ''Dear Anna, we go to London now'' [(5, 9, ''PERSON''), (20, 26, ''GPE'')]
   \<and> splice_reference ''Dear Anna, we go to London now'' [(5, 9, ''PERSON''), (20, 26, ''GPE'')]
       = ''Dear ***, we go to *** now''"
proof -
  have ok: "spans_of_buffer ''Dear Anna, we go to London now''
      [(5, 9, ''PERSON''), (20, 26, ''GPE'')]"
    by code_simp
  have "splice_reference ''Dear Anna, we go to London now'' [(5, 9, ''PERSON''), (20, 26, ''GPE'')]
       = ''Dear ***, we go to *** now''"
    by code_simp
  with ok descending_rewrite_is_splice[OF ok] show ?thesis by (intro conjI)
qed

text \<open>
  C8. When the recognizer raises, \<^verbatim>\<open>scrub_pii\<close> returns what it returns for a recognizer
  that finds no entity: the text as the rules left it, with the placeholders restored.
  It returns a string; nothing is raised.
\<close>

theorem recognizer_exception_is_no_entity:
  assumes "recognize (apply_rules (fst (shield s))) = Inl e"
  shows "scrub_pii (Some recognize) (PyStr s) = scrub_pii (Some (\<lambda>t. Inr [])) (PyStr s)
         \<and> scrub_pii (Some recognize) (PyStr s)
             = map_option PyStr (restore (apply_rules (fst (shield s))) (snd (shield s)))
         \<and> (\<exists>out. scrub_pii (Some recognize) (PyStr s) = Some (PyStr out))"
proof -
  obtain shielded cc where sh: "shield s = (shielded, cc)" by (cases "shield s")
  with assms have "apply_entities (Some recognize) (apply_rules shielded) = apply_rules shielded"
    by (simp add: apply_entities_def)
  moreover have "apply_entities (Some (\<lambda>t. Inr [])) (apply_rules shielded) = apply_rules shielded"
    by (simp add: apply_entities_def sort_reverse_def)
  moreover from restore_loop_terminates obtain out where
    "restore_loop (apply_rules shielded) cc 0 = Some out" by blast
  ultimately show ?thesis using sh by (simp add: scrub_pii_def restore_def)
qed

theorem recognizer_exception_is_no_entity_witness:
  "failing_recognizer (apply_rules (fst (shield ''Mail a.b@web.net''))) = Inl (PyException ''model failure'')
   \<and> scrub_pii (Some failing_recognizer) (PyStr ''Mail a.b@web.net'')
       = scrub_pii (Some (\<lambda>t. Inr [])) (PyStr ''Mail a.b@web.net'')
   \<and> (\<exists>out. scrub_pii (Some failing_recognizer) (PyStr ''Mail a.b@web.net'') = Some (PyStr out))"
proof -
  have raises: "failing_recognizer (apply_rules (fst (shield ''Mail a.b@web.net'')))
      = Inl (PyException ''model failure'')"
    by (simp add: failing_recognizer_def)
  from recognizer_exception_is_no_entity[of failing_recognizer "''Mail a.b@web.net''"
      "PyException ''model failure''", OF raises] raises
  show ?thesis by blast
qed

text \<open>
  C9. For a missing value (\<^verbatim>\<open>None\<close>, \<^verbatim>\<open>NaN\<close>) \<^verbatim>\<open>scrub_pii\<close> returns the value itself:
  no stage of the function sees it.
\<close>

theorem missing_value_unchanged: "pd_isna v \<Longrightarrow> scrub_pii nlp v = Some v"
  by (simp add: scrub_pii_def)

theorem missing_value_unchanged_witness:
  "pd_isna PyNaN \<and> scrub_pii None PyNaN = Some PyNaN \<and> pd_isna PyNone
   \<and> scrub_pii None PyNone = Some PyNone"
  using missing_value_unchanged[of PyNaN None] missing_value_unchanged[of PyNone None] by simp

text \<open>
  C10. For every string and every recognizer (absent, failing or returning any entities)
  \<^verbatim>\<open>scrub_pii\<close> returns, and returns a string: the restore loop ends.
\<close>

theorem scrub_pii_returns_a_string: "\<exists>out. scrub_pii nlp (PyStr s) = Some (PyStr out)"
proof -
  obtain shielded cc where sh: "shield s = (shielded, cc)" by (cases "shield s")
  from restore_loop_terminates obtain out where
    "restore_loop (apply_entities nlp (apply_rules shielded)) cc 0 = Some out" by blast
  with sh show ?thesis by (simp add: scrub_pii_def restore_def)
qed

theorem scrub_pii_returns_a_string_witness:
  "\<exists>out. scrub_pii None (PyStr ''@@TEMP_CC_PLACEHOLDER_0@@ and 4000 0000 0000 0002'')
     = Some (PyStr out)"
  using scrub_pii_returns_a_string[of None "''@@TEMP_CC_PLACEHOLDER_0@@ and 4000 0000 0000 0002''"]
  by simp

end
